theory Spec2Isabelle
  imports Main "HOL-Library.Multiset"
begin

section \<open>The parsed index of virt-builder: data model\<close>

text \<open>
  The file \<^verbatim>\<open>builder/index-struct.c\<close> initialises and tears down the in-memory form of a
  parsed index: a \<^verbatim>\<open>struct parse_context\<close> pointing to a singly linked chain of
  \<^verbatim>\<open>struct section\<close>, each pointing to a singly linked chain of \<^verbatim>\<open>struct field\<close>.
  The code works on pointers into the C heap and calls \<^verbatim>\<open>free\<close>, so the embedding has
  an explicit store: a partial map from addresses to typed cells, threaded through every
  operation together with a log of the member reads and \<^verbatim>\<open>free\<close> calls performed.
\<close>

type_synonym addr = nat

abbreviation NULL :: addr where
  "NULL \<equiv> 0"

text \<open>
  Modelled from the spec: the header \<^verbatim>\<open>index-struct.h\<close> that declares the three structs
  is not among the sources. The members are those that \<^verbatim>\<open>index-struct.c\<close> reads
  (\<^verbatim>\<open>section->next\<close>, \<^verbatim>\<open>section->name\<close>, \<^verbatim>\<open>section->fields\<close>, \<^verbatim>\<open>field->next\<close>,
  \<^verbatim>\<open>field->key\<close>, \<^verbatim>\<open>field->subkey\<close>, \<^verbatim>\<open>field->value\<close>, \<^verbatim>\<open>context->parsed_index\<close>); the
  spec gives the context no attribute beyond the pointer to the Section chain. Every member
  is a pointer. The member names carry the struct's name as a prefix because \<^verbatim>\<open>next\<close> and
  \<^verbatim>\<open>value\<close> are reserved words of the theory language.
\<close>

record section_t =
  section_next :: addr
  section_name :: addr
  section_fields :: addr

record field_t =
  field_next :: addr
  field_key :: addr
  field_subkey :: addr
  field_value :: addr

record parse_context =
  parsed_index :: addr

text \<open>What an allocated address holds: a node of one of the three structs, or a C string.\<close>

datatype cell =
    SectionCell section_t
  | FieldCell field_t
  | TextCell string
  | ContextCell parse_context

type_synonym heap = "addr \<Rightarrow> cell option"

text \<open>The members the code reads, and the two kinds of event the log records.\<close>

datatype member = Next | Name | Fields | Key | Subkey | Value | Parsed_index

datatype event = Load addr member | Free addr

record state =
  heap :: heap
  trace :: "event list"

text \<open>
  What can go wrong in C is a value of the model: reading a member through a pointer that
  is not a live node of the right struct, handing \<^verbatim>\<open>free\<close> a pointer that is not live
  (a double free among them), writing through a pointer that is not a live context, and
  running out of stack in the recursion. \<open>StepsExhausted\<close> belongs to the iterative walk
  of the design notes only (see below): its loop reached the bound on its iterations.
\<close>

datatype error =
  StackExhausted | StepsExhausted | InvalidLoad addr | InvalidFree addr | InvalidStore addr

definition and_then :: "error + 'a \<Rightarrow> ('a \<Rightarrow> error + 'b) \<Rightarrow> error + 'b" where
  "and_then r k = (case r of Inl e \<Rightarrow> Inl e | Inr x \<Rightarrow> k x)"

definition emit :: "event \<Rightarrow> state \<Rightarrow> state" where
  "emit e st = st\<lparr>trace := trace st @ [e]\<rparr>"

subsection \<open>Memory primitives\<close>

text \<open>
  \<^verbatim>\<open>free (p)\<close>: nothing happens to the heap when \<^verbatim>\<open>p\<close> is the null pointer; a live
  address is deallocated; anything else is undefined behaviour in C and an error here.
  The call is logged in each case that returns.
\<close>

definition free_ptr :: "addr \<Rightarrow> state \<Rightarrow> error + state" where
  "free_ptr p st =
     (if p = NULL then Inr (emit (Free p) st)
      else (case heap st p of
              None \<Rightarrow> Inl (InvalidFree p)
            | Some c \<Rightarrow> Inr (emit (Free p) (st\<lparr>heap := (heap st)(p := None)\<rparr>))))"

fun section_member :: "member \<Rightarrow> section_t \<Rightarrow> addr option" where
  "section_member Next s = Some (section_next s)"
| "section_member Name s = Some (section_name s)"
| "section_member Fields s = Some (section_fields s)"
| "section_member m s = None"

fun field_member :: "member \<Rightarrow> field_t \<Rightarrow> addr option" where
  "field_member Next f = Some (field_next f)"
| "field_member Key f = Some (field_key f)"
| "field_member Subkey f = Some (field_subkey f)"
| "field_member Value f = Some (field_value f)"
| "field_member m f = None"

text \<open>\<^verbatim>\<open>section->m\<close>: the pointer must be a live Section node.\<close>

definition load_section :: "addr \<Rightarrow> member \<Rightarrow> state \<Rightarrow> error + (addr \<times> state)" where
  "load_section p m st =
     (case heap st p of
        Some (SectionCell s) \<Rightarrow>
          (case section_member m s of
             Some v \<Rightarrow> Inr (v, emit (Load p m) st)
           | None \<Rightarrow> Inl (InvalidLoad p))
      | _ \<Rightarrow> Inl (InvalidLoad p))"

text \<open>\<^verbatim>\<open>field->m\<close>: the pointer must be a live Field node.\<close>

definition load_field :: "addr \<Rightarrow> member \<Rightarrow> state \<Rightarrow> error + (addr \<times> state)" where
  "load_field p m st =
     (case heap st p of
        Some (FieldCell f) \<Rightarrow>
          (case field_member m f of
             Some v \<Rightarrow> Inr (v, emit (Load p m) st)
           | None \<Rightarrow> Inl (InvalidLoad p))
      | _ \<Rightarrow> Inl (InvalidLoad p))"

text \<open>\<^verbatim>\<open>context->parsed_index\<close>: the pointer must be a live context.\<close>

definition load_context :: "addr \<Rightarrow> state \<Rightarrow> error + (addr \<times> state)" where
  "load_context p st =
     (case heap st p of
        Some (ContextCell c) \<Rightarrow> Inr (parsed_index c, emit (Load p Parsed_index) st)
      | _ \<Rightarrow> Inl (InvalidLoad p))"

section \<open>The operations of index-struct.c\<close>

text \<open>
  \<^verbatim>\<open>free_field\<close> (lines 53 to 63). The recursion of the C function is not structural in
  any argument, and on a cyclic chain it does not end; the first argument bounds the number
  of nested activations of the two recursive procedures that the stack still has room for,
  and an activation that finds no room is \<open>StackExhausted\<close>.
\<close>

fun free_field :: "nat \<Rightarrow> addr \<Rightarrow> state \<Rightarrow> error + state" where
  "free_field 0 field st = Inl StackExhausted"
| "free_field (Suc depth) field st =
     (if field \<noteq> NULL then
        and_then (load_field field Next st) (\<lambda>(nxt, st).
        and_then (free_field depth nxt st) (\<lambda>st.
        and_then (load_field field Key st) (\<lambda>(k, st).
        and_then (free_ptr k st) (\<lambda>st.
        and_then (load_field field Subkey st) (\<lambda>(sk, st).
        and_then (free_ptr sk st) (\<lambda>st.
        and_then (load_field field Value st) (\<lambda>(v, st).
        and_then (free_ptr v st) (\<lambda>st.
        free_ptr field st))))))))
      else Inr st)"

text \<open>\<^verbatim>\<open>free_section\<close> (lines 42 to 51): the rest of the chain, the name, the fields, the node.\<close>

fun free_section :: "nat \<Rightarrow> addr \<Rightarrow> state \<Rightarrow> error + state" where
  "free_section 0 section st = Inl StackExhausted"
| "free_section (Suc depth) section st =
     (if section \<noteq> NULL then
        and_then (load_section section Next st) (\<lambda>(nxt, st).
        and_then (free_section depth nxt st) (\<lambda>st.
        and_then (load_section section Name st) (\<lambda>(n, st).
        and_then (free_ptr n st) (\<lambda>st.
        and_then (load_section section Fields st) (\<lambda>(fs, st).
        and_then (free_field depth fs st) (\<lambda>st.
        free_ptr section st))))))
      else Inr st)"

text \<open>\<^verbatim>\<open>parse_context_free\<close> (lines 36 to 40) reads the context and writes nothing to it.\<close>

definition parse_context_free :: "nat \<Rightarrow> addr \<Rightarrow> state \<Rightarrow> error + state" where
  "parse_context_free depth context st =
     and_then (load_context context st) (\<lambda>(idx, st). free_section depth idx st)"

text \<open>
  \<^verbatim>\<open>parse_context_init\<close> (lines 30 to 34): \<^verbatim>\<open>memset\<close> overwrites the context, whatever it
  held, with zero bytes, which makes every member the null pointer.
\<close>

definition parse_context_init :: "addr \<Rightarrow> state \<Rightarrow> error + state" where
  "parse_context_init context st =
     (case heap st context of
        Some (ContextCell c) \<Rightarrow>
          Inr (st\<lparr>heap := (heap st)(context \<mapsto> ContextCell \<lparr>parsed_index = NULL\<rparr>)\<rparr>)
      | _ \<Rightarrow> Inl (InvalidStore context))"

section \<open>Vocabulary of the specification\<close>

subsection \<open>Chains and ownership\<close>

text \<open>
  A chain in the heap is described by its shape: the list of its nodes in chain order, each
  with its address and its content, a Section together with the shape of its Field chain.
  \<open>field_chain h p fs\<close> says that following \<^verbatim>\<open>next\<close> from \<open>p\<close> in the heap \<open>h\<close> visits
  exactly the nodes of \<open>fs\<close> and then reaches the terminator.
\<close>

type_synonym field_shape = "addr \<times> field_t"
type_synonym section_shape = "addr \<times> section_t \<times> field_shape list"

fun field_chain :: "heap \<Rightarrow> addr \<Rightarrow> field_shape list \<Rightarrow> bool" where
  "field_chain h p [] = (p = NULL)"
| "field_chain h p ((a, f) # fs) =
     (p = a \<and> p \<noteq> NULL \<and> h p = Some (FieldCell f) \<and> field_chain h (field_next f) fs)"

fun section_chain :: "heap \<Rightarrow> addr \<Rightarrow> section_shape list \<Rightarrow> bool" where
  "section_chain h p [] = (p = NULL)"
| "section_chain h p ((a, s, fs) # ss) =
     (p = a \<and> p \<noteq> NULL \<and> h p = Some (SectionCell s) \<and>
      field_chain h (section_fields s) fs \<and> section_chain h (section_next s) ss)"

text \<open>The text pointers of a node that are not null: an absent text owns no storage.\<close>

definition present :: "addr list \<Rightarrow> addr list" where
  "present ps = filter (\<lambda>p. p \<noteq> NULL) ps"

fun field_texts :: "field_shape \<Rightarrow> addr list" where
  "field_texts (a, f) = present [field_key f, field_subkey f, field_value f]"

definition fields_nodes :: "field_shape list \<Rightarrow> addr list" where
  "fields_nodes fs = map fst fs"

definition fields_texts :: "field_shape list \<Rightarrow> addr list" where
  "fields_texts fs = concat (map field_texts fs)"

fun section_nodes :: "section_shape list \<Rightarrow> addr list" where
  "section_nodes [] = []"
| "section_nodes ((a, s, fs) # ss) = a # section_nodes ss"

fun section_field_nodes :: "section_shape list \<Rightarrow> addr list" where
  "section_field_nodes [] = []"
| "section_field_nodes ((a, s, fs) # ss) = fields_nodes fs @ section_field_nodes ss"

fun section_texts :: "section_shape list \<Rightarrow> addr list" where
  "section_texts [] = []"
| "section_texts ((a, s, fs) # ss) = present [section_name s] @ fields_texts fs @ section_texts ss"

definition owned :: "section_shape list \<Rightarrow> addr list" where
  "owned ss = section_nodes ss @ section_field_nodes ss @ section_texts ss"

definition is_text :: "heap \<Rightarrow> addr \<Rightarrow> bool" where
  "is_text h p = (case h p of Some (TextCell s) \<Rightarrow> True | _ \<Rightarrow> False)"

definition is_section :: "heap \<Rightarrow> addr \<Rightarrow> bool" where
  "is_section h p = (case h p of Some (SectionCell s) \<Rightarrow> True | _ \<Rightarrow> False)"

definition is_field :: "heap \<Rightarrow> addr \<Rightarrow> bool" where
  "is_field h p = (case h p of Some (FieldCell f) \<Rightarrow> True | _ \<Rightarrow> False)"

text \<open>
  Well-formed: the chain is there, ownership is a tree (no address is owned twice, so no
  sharing and no cycle), and every text pointer that is not null is a live string.
\<close>

definition wf_fields :: "heap \<Rightarrow> addr \<Rightarrow> field_shape list \<Rightarrow> bool" where
  "wf_fields h p fs =
     (field_chain h p fs \<and> distinct (fields_nodes fs @ fields_texts fs) \<and>
      list_all (is_text h) (fields_texts fs))"

definition wf_index :: "heap \<Rightarrow> addr \<Rightarrow> section_shape list \<Rightarrow> bool" where
  "wf_index h p ss =
     (section_chain h p ss \<and> distinct (owned ss) \<and> list_all (is_text h) (section_texts ss))"

definition wf_context :: "state \<Rightarrow> addr \<Rightarrow> section_shape list \<Rightarrow> bool" where
  "wf_context st context ss =
     (case heap st context of
        Some (ContextCell c) \<Rightarrow> wf_index (heap st) (parsed_index c) ss
      | _ \<Rightarrow> False)"

subsection \<open>Logs\<close>

text \<open>The pointers handed to \<^verbatim>\<open>free\<close>, the nodes read, and the deallocations (a call
  with the null pointer deallocates nothing).\<close>

fun frees :: "event list \<Rightarrow> addr list" where
  "frees [] = []"
| "frees (Free a # es) = a # frees es"
| "frees (Load a m # es) = frees es"

fun loads :: "event list \<Rightarrow> addr list" where
  "loads [] = []"
| "loads (Load a m # es) = a # loads es"
| "loads (Free a # es) = loads es"

definition deallocs :: "event list \<Rightarrow> addr list" where
  "deallocs es = present (frees es)"

text \<open>No member of a node is read once the node has been handed to \<^verbatim>\<open>free\<close>.\<close>

fun no_load_after_free :: "event list \<Rightarrow> bool" where
  "no_load_after_free [] = True"
| "no_load_after_free (Load a m # es) = no_load_after_free es"
| "no_load_after_free (Free a # es) = (a \<notin> set (loads es) \<and> no_load_after_free es)"

text \<open>The state after a run that logged \<open>es\<close> and faulted nowhere.\<close>

definition without :: "heap \<Rightarrow> addr list \<Rightarrow> heap" where
  "without h as = (\<lambda>a. if a \<in> set as then None else h a)"

definition effect :: "event list \<Rightarrow> state \<Rightarrow> state" where
  "effect es st = \<lparr>heap = without (heap st) (deallocs es), trace = trace st @ es\<rparr>"

definition freed_by :: "error + state \<Rightarrow> addr list option" where
  "freed_by r = (case r of Inl e \<Rightarrow> None | Inr st \<Rightarrow> Some (frees (trace st)))"

subsection \<open>The order of release\<close>

text \<open>
  The log that the code of \<^verbatim>\<open>free_field\<close> and \<^verbatim>\<open>free_section\<close> writes on a chain of a given
  shape, read off the two function bodies: the link, the rest of the chain, then the node's
  own resources in the order of the statements.
\<close>

fun field_trace :: "field_shape list \<Rightarrow> event list" where
  "field_trace [] = []"
| "field_trace ((a, f) # fs) =
     Load a Next # field_trace fs @
     [Load a Key, Free (field_key f), Load a Subkey, Free (field_subkey f),
      Load a Value, Free (field_value f), Free a]"

fun section_trace :: "section_shape list \<Rightarrow> event list" where
  "section_trace [] = []"
| "section_trace ((a, s, fs) # ss) =
     Load a Next # section_trace ss @
     [Load a Name, Free (section_name s), Load a Fields] @ field_trace fs @ [Free a]"

text \<open>
  The order of the \<^verbatim>\<open>free\<close> calls as section 4.2 of the specification words it: the rest
  of the chain, then the Section's Field chain, then its name, then the node.
\<close>

fun spec_section_order :: "section_shape list \<Rightarrow> addr list" where
  "spec_section_order [] = []"
| "spec_section_order ((a, s, fs) # ss) =
     spec_section_order ss @ frees (field_trace fs) @ [section_name s, a]"

text \<open>The number of nested activations that releasing a chain of this shape needs.\<close>

fun stack_depth :: "section_shape list \<Rightarrow> nat" where
  "stack_depth [] = 1"
| "stack_depth ((a, s, fs) # ss) = Suc (max (stack_depth ss) (Suc (length fs)))"

subsection \<open>The iterative walk of the design notes\<close>

text \<open>
  Section 9 of the specification describes an alternative to the recursion: repeatedly
  capture the current node's link to the next node, release the current node's owned
  resources and itself, then advance to the captured next node, until the terminator is
  reached. These two functions follow those words (a Section's resources in the order of
  section 4.2: Field chain, then name); they are not code of the repository. The loop of
  the walk is a recursion on a bound on its iterations.
\<close>

fun release_fields_iter :: "nat \<Rightarrow> addr \<Rightarrow> state \<Rightarrow> error + state" where
  "release_fields_iter 0 p st = Inl StepsExhausted"
| "release_fields_iter (Suc steps) p st =
     (if p = NULL then Inr st
      else
        and_then (load_field p Next st) (\<lambda>(nxt, st).
        and_then (load_field p Key st) (\<lambda>(k, st).
        and_then (free_ptr k st) (\<lambda>st.
        and_then (load_field p Subkey st) (\<lambda>(sk, st).
        and_then (free_ptr sk st) (\<lambda>st.
        and_then (load_field p Value st) (\<lambda>(v, st).
        and_then (free_ptr v st) (\<lambda>st.
        and_then (free_ptr p st) (\<lambda>st.
        release_fields_iter steps nxt st)))))))))"

fun release_sections_iter :: "nat \<Rightarrow> nat \<Rightarrow> addr \<Rightarrow> state \<Rightarrow> error + state" where
  "release_sections_iter inner 0 p st = Inl StepsExhausted"
| "release_sections_iter inner (Suc steps) p st =
     (if p = NULL then Inr st
      else
        and_then (load_section p Next st) (\<lambda>(nxt, st).
        and_then (load_section p Fields st) (\<lambda>(fs, st).
        and_then (release_fields_iter inner fs st) (\<lambda>st.
        and_then (load_section p Name st) (\<lambda>(n, st).
        and_then (free_ptr n st) (\<lambda>st.
        and_then (free_ptr p st) (\<lambda>st.
        release_sections_iter inner steps nxt st)))))))"

text \<open>The logs of the two walks on a chain of a given shape.\<close>

fun field_walk :: "field_shape list \<Rightarrow> event list" where
  "field_walk [] = []"
| "field_walk ((a, f) # fs) =
     [Load a Next, Load a Key, Free (field_key f), Load a Subkey, Free (field_subkey f),
      Load a Value, Free (field_value f), Free a] @ field_walk fs"

fun section_walk :: "section_shape list \<Rightarrow> event list" where
  "section_walk [] = []"
| "section_walk ((a, s, fs) # ss) =
     [Load a Next, Load a Fields] @ field_walk fs @
     [Load a Name, Free (section_name s), Free a] @ section_walk ss"

subsection \<open>Two concrete indexes\<close>

text \<open>
  The scenario of section 8 of the specification: a context (at address 10) with one
  Section named os-version holding two Fields, the first without a subkey.
\<close>

definition demo_section :: section_t where
  "demo_section = \<lparr>section_next = NULL, section_name = 2, section_fields = 3\<rparr>"

definition demo_field1 :: field_t where
  "demo_field1 = \<lparr>field_next = 7, field_key = 4, field_subkey = NULL, field_value = 5\<rparr>"

definition demo_field2 :: field_t where
  "demo_field2 = \<lparr>field_next = NULL, field_key = 8, field_subkey = 9, field_value = 11\<rparr>"

definition demo_fields :: "field_shape list" where
  "demo_fields = [(3, demo_field1), (7, demo_field2)]"

definition demo_shape :: "section_shape list" where
  "demo_shape = [(1, demo_section, demo_fields)]"

definition demo_heap :: heap where
  "demo_heap =
     [10 \<mapsto> ContextCell \<lparr>parsed_index = 1\<rparr>,
      1 \<mapsto> SectionCell demo_section, 2 \<mapsto> TextCell ''os-version'',
      3 \<mapsto> FieldCell demo_field1, 4 \<mapsto> TextCell ''debian-9'', 5 \<mapsto> TextCell ''...'',
      7 \<mapsto> FieldCell demo_field2, 8 \<mapsto> TextCell ''fedora-30'', 9 \<mapsto> TextCell ''arch'',
      11 \<mapsto> TextCell ''x86_64'']"

definition demo_state :: state where
  "demo_state = \<lparr>heap = demo_heap, trace = []\<rparr>"

text \<open>
  A context (at address \<open>2 * n + 1\<close>) with \<open>n\<close> chained Sections at the addresses 1 to \<open>n\<close>,
  each with a name and no Field.
\<close>

definition long_section :: "nat \<Rightarrow> addr \<Rightarrow> section_t" where
  "long_section n i =
     \<lparr>section_next = (if i < n then Suc i else NULL), section_name = n + i,
      section_fields = NULL\<rparr>"

definition long_shape :: "nat \<Rightarrow> section_shape list" where
  "long_shape n = map (\<lambda>i. (i, long_section n i, [])) [1..<Suc n]"

definition long_heap :: "nat \<Rightarrow> heap" where
  "long_heap n a =
     (if a = NULL then None
      else if a \<le> n then Some (SectionCell (long_section n a))
      else if a \<le> 2 * n then Some (TextCell ''name'')
      else if a = 2 * n + 1 then Some (ContextCell \<lparr>parsed_index = (if n = 0 then NULL else 1)\<rparr>)
      else None)"

definition long_state :: "nat \<Rightarrow> state" where
  "long_state n = \<lparr>heap = long_heap n, trace = []\<rparr>"

section \<open>Auxiliary facts\<close>

subsection \<open>Sequencing, heaps and logs\<close>

lemma and_then_simps [simp]:
  "and_then (Inl e) k = Inl e" "and_then (Inr x) k = k x"
  by (simp_all add: and_then_def)

lemma and_then_Inr: "and_then r k = Inr y \<longleftrightarrow> (\<exists>x. r = Inr x \<and> k x = Inr y)"
  by (cases r) simp_all

lemma without_nil [simp]: "without h [] = h"
  by (simp add: without_def)

lemma without_without [simp]: "without (without h as) bs = without h (as @ bs)"
  by (rule ext) (simp add: without_def)

lemma without_apply: "without h as a = (if a \<in> set as then None else h a)"
  by (simp add: without_def)

lemma without_cong: "set as = set bs \<Longrightarrow> without h as = without h bs"
  by (simp add: without_def)

lemma present_append [simp]: "present (as @ bs) = present as @ present bs"
  by (simp add: present_def)

lemma present_Nil [simp]: "present [] = []"
  by (simp add: present_def)

lemma present_simps:
  "present [] = []" "present (a # as) = (if a = NULL then present as else a # present as)"
  by (simp_all add: present_def)

lemma set_present: "set (present as) = set as - {NULL}"
  by (auto simp: present_def)

lemma NULL_notin_present: "NULL \<notin> set (present as)"
  by (simp add: set_present)

lemma present_id: "NULL \<notin> set as \<Longrightarrow> present as = as"
  by (induction as) (auto simp: present_simps)

lemma mset_present: "mset as = mset bs \<Longrightarrow> mset (present as) = mset (present bs)"
  unfolding present_def by (simp only: mset_filter)

lemma distinct_present3:
  "distinct (present [k, s, v]) \<Longrightarrow>
     (k \<noteq> NULL \<longrightarrow> k \<noteq> s \<and> k \<noteq> v) \<and> (s \<noteq> NULL \<longrightarrow> s \<noteq> v)"
  by (auto simp: present_simps split: if_splits)

lemma frees_append [simp]: "frees (es @ fs) = frees es @ frees fs"
  by (induction es rule: frees.induct) simp_all

lemma loads_append [simp]: "loads (es @ fs) = loads es @ loads fs"
  by (induction es rule: loads.induct) simp_all

lemma load_mem_loads: "Load a m \<in> set es \<Longrightarrow> a \<in> set (loads es)"
  by (induction es rule: loads.induct) auto

lemma deallocs_append [simp]: "deallocs (es @ fs) = deallocs es @ deallocs fs"
  by (simp add: deallocs_def)

lemma deallocs_simps [simp]:
  "deallocs [] = []" "deallocs (Load a m # es) = deallocs es"
  "deallocs (Free a # es) = (if a = NULL then deallocs es else a # deallocs es)"
  by (simp_all add: deallocs_def present_simps)

lemma set_deallocs_snoc_free:
  "set (deallocs (es @ [Free p])) = set (deallocs es) \<union> ({p} - {NULL})"
  by auto

lemma set_deallocs_snoc_load: "set (deallocs (es @ [Load p m])) = set (deallocs es)"
  by simp

lemma set_deallocs_append: "set (deallocs (es @ fs)) = set (deallocs es) \<union> set (deallocs fs)"
  by simp

lemma set_frees_deallocs: "set (frees es) \<subseteq> insert NULL (set (deallocs es))"
  by (auto simp: deallocs_def set_present)

lemma effect_nil [simp]: "effect [] st = st"
  by (simp add: effect_def)

lemma effect_effect [simp]: "effect fs (effect es st) = effect (es @ fs) st"
  by (simp add: effect_def)

lemma heap_effect [simp]: "heap (effect es st) = without (heap st) (deallocs es)"
  by (simp add: effect_def)

lemma trace_effect [simp]: "trace (effect es st) = trace st @ es"
  by (simp add: effect_def)

lemma no_load_after_free_append:
  "no_load_after_free (xs @ ys) =
     (no_load_after_free xs \<and> no_load_after_free ys \<and> set (frees xs) \<inter> set (loads ys) = {})"
  by (induction xs rule: no_load_after_free.induct) auto

text \<open>In a log without a read after a free, a node that is read and freed is read first.\<close>

lemma split_free:
  assumes "no_load_after_free es" "Load a m \<in> set es" "Free a \<in> set es"
  shows "\<exists>pre post. es = pre @ Free a # post \<and> Load a m \<in> set pre \<and> a \<notin> set (loads post)"
proof -
  from assms(3) obtain pre post where es: "es = pre @ Free a # post"
    by (auto dest: split_list)
  from assms(1) have "no_load_after_free (Free a # post)"
    unfolding es no_load_after_free_append by simp
  then have post: "a \<notin> set (loads post)" by simp
  then have "Load a m \<notin> set post" using load_mem_loads by blast
  with assms(2) have "Load a m \<in> set pre" unfolding es by auto
  with es post show ?thesis by blast
qed

subsection \<open>The primitives, run on the state after a log\<close>

lemma free_ptr_effect:
  assumes "p = NULL \<or> heap st p \<noteq> None"
  shows "free_ptr p st = Inr (effect [Free p] st)"
proof (cases "p = NULL")
  case True
  then show ?thesis by (simp add: free_ptr_def emit_def effect_def)
next
  case False
  with assms obtain c where c: "heap st p = Some c" by auto
  have "(heap st)(p := None) = without (heap st) [p]"
    by (rule ext) (simp add: without_def)
  with False c show ?thesis
    by (simp add: free_ptr_def emit_def effect_def)
qed

lemma free_ptr_after:
  assumes "p = NULL \<or> (heap st p \<noteq> None \<and> p \<notin> set (deallocs es))"
  shows "free_ptr p (effect es st) = Inr (effect (es @ [Free p]) st)"
  using free_ptr_effect [of p "effect es st"] assms by (auto simp: without_apply)

lemma load_field_effect:
  assumes "heap st p = Some (FieldCell f)" "field_member m f = Some v"
  shows "load_field p m st = Inr (v, effect [Load p m] st)"
  using assms by (simp add: load_field_def emit_def effect_def)

lemma load_field_after:
  assumes "heap st p = Some (FieldCell f)" "p \<notin> set (deallocs es)"
    and "field_member m f = Some v"
  shows "load_field p m (effect es st) = Inr (v, effect (es @ [Load p m]) st)"
  using load_field_effect [of "effect es st" p f m v] assms by (simp add: without_apply)

lemma load_section_effect:
  assumes "heap st p = Some (SectionCell s)" "section_member m s = Some v"
  shows "load_section p m st = Inr (v, effect [Load p m] st)"
  using assms by (simp add: load_section_def emit_def effect_def)

lemma load_section_after:
  assumes "heap st p = Some (SectionCell s)" "p \<notin> set (deallocs es)"
    and "section_member m s = Some v"
  shows "load_section p m (effect es st) = Inr (v, effect (es @ [Load p m]) st)"
  using load_section_effect [of "effect es st" p s m v] assms by (simp add: without_apply)

lemma load_context_effect:
  assumes "heap st p = Some (ContextCell c)"
  shows "load_context p st = Inr (parsed_index c, effect [Load p Parsed_index] st)"
  using assms by (simp add: load_context_def emit_def effect_def)

subsection \<open>Well-formed chains\<close>

lemma is_text_live: "is_text h p \<Longrightarrow> h p \<noteq> None"
  by (auto simp: is_text_def split: option.splits cell.splits)

lemma is_text_without: "is_text h t \<Longrightarrow> t \<notin> set as \<Longrightarrow> is_text (without h as) t"
  by (simp add: is_text_def without_apply)

lemma kinds_exclusive:
  "is_section h a \<Longrightarrow> is_field h a \<Longrightarrow> False"
  "is_section h a \<Longrightarrow> is_text h a \<Longrightarrow> False"
  "is_field h a \<Longrightarrow> is_text h a \<Longrightarrow> False"
  by (auto simp: is_section_def is_field_def is_text_def split: option.splits cell.splits)

lemma field_chain_nodes: "field_chain h p fs \<Longrightarrow> NULL \<notin> set (fields_nodes fs)"
  by (induction fs arbitrary: p) (force simp: fields_nodes_def)+

lemma section_chain_nodes:
  "section_chain h p ss \<Longrightarrow>
     NULL \<notin> set (section_nodes ss) \<and> NULL \<notin> set (section_field_nodes ss)"
proof (induction ss arbitrary: p)
  case (Cons x ss)
  obtain a s fs where x: "x = (a, s, fs)" by (cases x)
  with Cons show ?case using field_chain_nodes [of h "section_fields s" fs] by auto
qed simp

lemma NULL_notin_fields_texts: "NULL \<notin> set (fields_texts fs)"
  by (induction fs) (auto simp: fields_texts_def set_present)

lemma field_chain_kinds:
  "field_chain h p fs \<Longrightarrow> list_all (is_field h) (fields_nodes fs)"
  by (induction fs arbitrary: p) (auto simp: fields_nodes_def is_field_def)

lemma section_chain_kinds:
  "section_chain h p ss \<Longrightarrow>
     list_all (is_section h) (section_nodes ss) \<and> list_all (is_field h) (section_field_nodes ss)"
proof (induction ss arbitrary: p)
  case (Cons x ss)
  obtain a s fs where x: "x = (a, s, fs)" by (cases x)
  from Cons show ?case unfolding x
    using field_chain_kinds [of h "section_fields s" fs] by (auto simp: is_section_def)
qed simp

text \<open>A chain stays a chain in every heap that agrees on its nodes.\<close>

lemma field_chain_frame:
  "field_chain h p fs \<Longrightarrow> (\<And>a. a \<in> set (fields_nodes fs) \<Longrightarrow> h' a = h a) \<Longrightarrow>
     field_chain h' p fs"
  by (induction fs arbitrary: p) (auto simp: fields_nodes_def)

lemma section_chain_frame:
  "section_chain h p ss \<Longrightarrow>
     (\<And>a. a \<in> set (section_nodes ss @ section_field_nodes ss) \<Longrightarrow> h' a = h a) \<Longrightarrow>
     section_chain h' p ss"
proof (induction ss arbitrary: p)
  case (Cons x ss)
  obtain a s fs where x: "x = (a, s, fs)" by (cases x)
  from Cons.prems(1) have a: "p = a" "a \<noteq> NULL" "h a = Some (SectionCell s)"
    and fc: "field_chain h (section_fields s) fs" and sc: "section_chain h (section_next s) ss"
    unfolding x by auto
  have 1: "h' a = Some (SectionCell s)" using Cons.prems(2) [of a] a(3) unfolding x by simp
  have 2: "field_chain h' (section_fields s) fs"
    by (rule field_chain_frame [OF fc]) (use Cons.prems(2) in \<open>simp add: x\<close>)
  have 3: "section_chain h' (section_next s) ss"
    by (rule Cons.IH [OF sc]) (use Cons.prems(2) in \<open>auto simp: x\<close>)
  from a 1 2 3 show ?case unfolding x by simp
qed simp

lemma wf_fields_without:
  assumes "wf_fields h p fs" "set as \<inter> set (fields_nodes fs @ fields_texts fs) = {}"
  shows "wf_fields (without h as) p fs"
proof -
  from assms(1) have c: "field_chain h p fs" and d: "distinct (fields_nodes fs @ fields_texts fs)"
    and t: "list_all (is_text h) (fields_texts fs)" by (simp_all add: wf_fields_def)
  have "field_chain (without h as) p fs"
    by (rule field_chain_frame [OF c]) (use assms(2) in \<open>auto simp: without_apply\<close>)
  moreover have "list_all (is_text (without h as)) (fields_texts fs)"
    using t assms(2) by (auto simp: list_all_iff intro!: is_text_without)
  ultimately show ?thesis using d by (simp add: wf_fields_def)
qed

lemma wf_index_without:
  assumes "wf_index h p ss" "set as \<inter> set (owned ss) = {}"
  shows "wf_index (without h as) p ss"
proof -
  from assms(1) have c: "section_chain h p ss" and d: "distinct (owned ss)"
    and t: "list_all (is_text h) (section_texts ss)" by (simp_all add: wf_index_def)
  have "section_chain (without h as) p ss"
    by (rule section_chain_frame [OF c]) (use assms(2) in \<open>auto simp: without_apply owned_def\<close>)
  moreover have "list_all (is_text (without h as)) (section_texts ss)"
    using t assms(2) by (auto simp: list_all_iff owned_def intro!: is_text_without)
  ultimately show ?thesis using d by (simp add: wf_index_def)
qed

text \<open>What well-formedness says about the first node of a chain and about the rest.\<close>

lemma wf_fields_tail:
  assumes "wf_fields h p ((a, f) # fs)"
  shows "wf_fields h (field_next f) fs"
  using assms by (auto simp: wf_fields_def fields_nodes_def fields_texts_def)

lemma wf_fields_head:
  assumes "wf_fields h p ((a, f) # fs)"
  shows "p = a" "a \<noteq> NULL" "h a = Some (FieldCell f)"
    "a \<notin> set (fields_nodes fs @ fields_texts fs)"
    "a \<noteq> field_key f" "a \<noteq> field_subkey f" "a \<noteq> field_value f"
    "field_key f = NULL \<or>
       (h (field_key f) \<noteq> None \<and> field_key f \<notin> set (fields_nodes fs @ fields_texts fs))"
    "field_subkey f = NULL \<or>
       (h (field_subkey f) \<noteq> None \<and> field_subkey f \<noteq> field_key f \<and>
        field_subkey f \<notin> set (fields_nodes fs @ fields_texts fs))"
    "field_value f = NULL \<or>
       (h (field_value f) \<noteq> None \<and> field_value f \<noteq> field_key f \<and>
        field_value f \<noteq> field_subkey f \<and>
        field_value f \<notin> set (fields_nodes fs @ fields_texts fs))"
proof -
  define S where "S = fields_nodes fs @ fields_texts fs"
  let ?k = "field_key f" and ?s = "field_subkey f" and ?v = "field_value f"
  let ?T = "present [?k, ?s, ?v]"
  from assms show a: "p = a" "a \<noteq> NULL" "h a = Some (FieldCell f)"
    by (auto simp: wf_fields_def)
  from assms have dist: "distinct (a # fields_nodes fs @ field_texts (a, f) @ fields_texts fs)"
    and tx: "list_all (is_text h) (field_texts (a, f) @ fields_texts fs)"
    by (auto simp: wf_fields_def fields_nodes_def fields_texts_def)
  have dT: "distinct ?T" and aT: "a \<notin> set ?T" and TS: "set ?T \<inter> set S = {}"
    and aS: "a \<notin> set S"
    using dist unfolding S_def field_texts.simps by auto
  have liveT: "\<And>t. t \<in> set ?T \<Longrightarrow> h t \<noteq> None"
    using tx unfolding field_texts.simps by (simp add: list_all_iff is_text_live)
  have memT: "set ?T = {?k, ?s, ?v} - {NULL}"
    by (simp only: set_present) simp
  have neqT: "(?k \<noteq> NULL \<longrightarrow> ?k \<noteq> ?s \<and> ?k \<noteq> ?v) \<and> (?s \<noteq> NULL \<longrightarrow> ?s \<noteq> ?v)"
    using dT by (rule distinct_present3)
  have inT: "\<And>t. t \<noteq> NULL \<Longrightarrow> t = ?k \<or> t = ?s \<or> t = ?v \<Longrightarrow> t \<in> set ?T"
    unfolding memT by blast
  have okT: "\<And>t. t \<in> set ?T \<Longrightarrow> t \<notin> set S \<and> t \<noteq> a \<and> h t \<noteq> None"
    using aT TS liveT by blast
  show "a \<notin> set (fields_nodes fs @ fields_texts fs)" using aS by (simp add: S_def)
  show "a \<noteq> ?k" using okT [of ?k] inT [of ?k] a(2) by metis
  show "a \<noteq> ?s" using okT [of ?s] inT [of ?s] a(2) by metis
  show "a \<noteq> ?v" using okT [of ?v] inT [of ?v] a(2) by metis
  show "?k = NULL \<or> (h ?k \<noteq> None \<and> ?k \<notin> set (fields_nodes fs @ fields_texts fs))"
    using okT [of ?k] inT [of ?k] unfolding S_def by blast
  show "?s = NULL \<or>
       (h ?s \<noteq> None \<and> ?s \<noteq> ?k \<and> ?s \<notin> set (fields_nodes fs @ fields_texts fs))"
  proof (cases "?s = NULL")
    case False
    then have "?s \<noteq> ?k" using neqT by metis
    with False okT [of ?s] inT [of ?s] show ?thesis
      unfolding S_def by blast
  qed simp
  show "?v = NULL \<or>
       (h ?v \<noteq> None \<and> ?v \<noteq> ?k \<and> ?v \<noteq> ?s \<and>
        ?v \<notin> set (fields_nodes fs @ fields_texts fs))"
  proof (cases "?v = NULL")
    case False
    then have "?v \<noteq> ?k" "?v \<noteq> ?s"
      using neqT by metis+
    with False okT [of ?v] inT [of ?v] show ?thesis
      unfolding S_def by blast
  qed simp
qed

lemma owned_Cons:
  "mset (owned ((a, s, fs) # ss)) =
     mset (a # present [section_name s] @ (fields_nodes fs @ fields_texts fs) @ owned ss)"
  by (simp add: owned_def)

lemma distinct_owned_Cons:
  assumes "wf_index h p ((a, s, fs) # ss)"
  shows "distinct (a # present [section_name s] @ (fields_nodes fs @ fields_texts fs) @ owned ss)"
proof -
  from assms have "distinct (owned ((a, s, fs) # ss))" by (simp add: wf_index_def)
  then show ?thesis using owned_Cons [of a s fs ss] by (metis mset_eq_imp_distinct_iff)
qed

lemma wf_index_tail:
  assumes "wf_index h p ((a, s, fs) # ss)"
  shows "wf_index h (section_next s) ss"
proof -
  from distinct_owned_Cons [OF assms] have "distinct (owned ss)" by simp
  with assms show ?thesis by (simp add: wf_index_def)
qed

lemma wf_index_fields:
  assumes "wf_index h p ((a, s, fs) # ss)"
  shows "wf_fields h (section_fields s) fs"
proof -
  from distinct_owned_Cons [OF assms] have "distinct (fields_nodes fs @ fields_texts fs)"
    by auto
  with assms show ?thesis by (simp add: wf_index_def wf_fields_def)
qed

lemma wf_index_head:
  assumes "wf_index h p ((a, s, fs) # ss)"
  shows "p = a" "a \<noteq> NULL" "h a = Some (SectionCell s)"
    "a \<notin> set (fields_nodes fs @ fields_texts fs)" "a \<notin> set (owned ss)"
    "a \<noteq> section_name s"
    "section_name s = NULL \<or>
       (h (section_name s) \<noteq> None \<and>
        section_name s \<notin> set (fields_nodes fs @ fields_texts fs) \<and>
        section_name s \<notin> set (owned ss))"
    "set (fields_nodes fs @ fields_texts fs) \<inter> set (owned ss) = {}"
proof -
  define F where "F = fields_nodes fs @ fields_texts fs"
  define S where "S = owned ss"
  let ?n = "section_name s"
  from assms show a: "p = a" "a \<noteq> NULL" "h a = Some (SectionCell s)"
    by (auto simp: wf_index_def)
  have dist: "distinct (a # present [?n] @ F @ S)"
    unfolding F_def S_def by (rule distinct_owned_Cons [OF assms])
  from assms have tx: "list_all (is_text h) (present [?n])" by (simp add: wf_index_def)
  have aS: "a \<notin> set S" and aF: "a \<notin> set F" and FS: "set F \<inter> set S = {}"
    and nS: "set (present [?n]) \<inter> (set F \<union> set S) = {}" and an: "a \<notin> set (present [?n])"
    using dist by auto
  have n: "?n = NULL \<or> ?n \<in> set (present [?n])" by (auto simp: set_present)
  show "a \<notin> set (fields_nodes fs @ fields_texts fs)" using aF by (simp add: F_def)
  show "a \<notin> set (owned ss)" using aS by (simp add: S_def)
  show "a \<noteq> ?n" using n an a(2) by auto
  show "?n = NULL \<or> (h ?n \<noteq> None \<and> ?n \<notin> set (fields_nodes fs @ fields_texts fs) \<and>
        ?n \<notin> set (owned ss))"
    using n nS tx unfolding F_def S_def by (auto simp: list_all_iff is_text_live)
  show "set (fields_nodes fs @ fields_texts fs) \<inter> set (owned ss) = {}"
    using FS by (simp add: F_def S_def)
qed

lemma wf_index_kinds:
  assumes "wf_index h p ss" "a \<in> set (owned ss)"
  shows "is_section h a \<or> is_field h a \<or> is_text h a"
proof -
  from assms(1) have "section_chain h p ss" "list_all (is_text h) (section_texts ss)"
    by (simp_all add: wf_index_def)
  with section_chain_kinds [of h p ss] assms(2) show ?thesis
    by (auto simp: owned_def list_all_iff)
qed

lemma wf_contextD:
  assumes "wf_context st context ss"
  obtains c where "heap st context = Some (ContextCell c)"
    and "wf_index (heap st) (parsed_index c) ss"
  using assms by (auto simp: wf_context_def split: option.splits cell.splits)

lemma stack_depth_bound:
  assumes "\<forall>x\<in>set ss. length (snd (snd x)) \<le> M"
  shows "stack_depth ss \<le> length ss + M + 1"
  using assms
proof (induction ss)
  case (Cons x ss)
  obtain a s fs where x: "x = (a, s, fs)" by (cases x)
  from Cons show ?case unfolding x by auto
qed simp

lemma length_section_nodes: "length (section_nodes ss) = length ss"
  by (induction ss) auto

lemma length_section_field_nodes:
  assumes "\<forall>x\<in>set ss. length (snd (snd x)) = M"
  shows "length (section_field_nodes ss) = length ss * M"
  using assms
proof (induction ss)
  case (Cons x ss)
  obtain a s fs where x: "x = (a, s, fs)" by (cases x)
  from Cons show ?case unfolding x by (simp add: fields_nodes_def)
qed simp

lemma distinct_owned:
  "distinct (owned ss) \<Longrightarrow> distinct (section_nodes ss) \<and> distinct (section_field_nodes ss)"
  by (simp add: owned_def)

subsection \<open>What the logs of a release hold\<close>

lemma deallocs_field_trace:
  "mset (deallocs (field_trace fs)) = mset (present (fields_nodes fs)) + mset (fields_texts fs)"
  by (induction fs) (auto simp: fields_nodes_def fields_texts_def present_simps)

lemma deallocs_field_chain:
  assumes "field_chain h p fs"
  shows "set (deallocs (field_trace fs)) = set (fields_nodes fs @ fields_texts fs)"
proof -
  have "mset (deallocs (field_trace fs)) = mset (fields_nodes fs @ fields_texts fs)"
    using deallocs_field_trace [of fs] field_chain_nodes [OF assms] by (simp add: present_id)
  then show ?thesis by (rule mset_eq_setD)
qed

lemma deallocs_section_trace:
  "mset (deallocs (section_trace ss)) =
     mset (present (section_nodes ss)) + mset (present (section_field_nodes ss)) +
     mset (section_texts ss)"
proof (induction ss)
  case (Cons x ss)
  obtain a s fs where x: "x = (a, s, fs)" by (cases x)
  show ?case unfolding x using Cons by (simp add: deallocs_field_trace present_simps)
qed simp

lemma deallocs_section_chain:
  assumes "section_chain h p ss"
  shows "mset (deallocs (section_trace ss)) = mset (owned ss)"
  using deallocs_section_trace [of ss] section_chain_nodes [OF assms]
  by (simp add: owned_def present_id)

lemma frees_field_walk: "mset (frees (field_walk fs)) = mset (frees (field_trace fs))"
  by (induction fs rule: field_trace.induct) simp_all

lemma frees_section_walk: "mset (frees (section_walk ss)) = mset (frees (section_trace ss))"
  by (induction ss rule: section_trace.induct) (simp_all add: frees_field_walk)

lemma deallocs_field_walk: "set (deallocs (field_walk fs)) = set (deallocs (field_trace fs))"
  unfolding deallocs_def by (rule mset_eq_setD [OF mset_present [OF frees_field_walk]])

lemma deallocs_section_walk:
  "set (deallocs (section_walk ss)) = set (deallocs (section_trace ss))"
  unfolding deallocs_def by (rule mset_eq_setD [OF mset_present [OF frees_section_walk]])

lemma loads_field_trace: "set (loads (field_trace fs)) = set (fields_nodes fs)"
  by (induction fs rule: field_trace.induct) (auto simp: fields_nodes_def)

lemma field_trace_events:
  "a \<in> set (fields_nodes fs) \<Longrightarrow>
     Load a Next \<in> set (field_trace fs) \<and> Free a \<in> set (field_trace fs)"
  by (induction fs rule: field_trace.induct) (auto simp: fields_nodes_def)

lemma section_trace_events:
  "a \<in> set (section_nodes ss @ section_field_nodes ss) \<Longrightarrow>
     Load a Next \<in> set (section_trace ss) \<and> Free a \<in> set (section_trace ss)"
proof (induction ss)
  case (Cons x ss)
  obtain b s fs where x: "x = (b, s, fs)" by (cases x)
  from Cons show ?case unfolding x using field_trace_events [of a fs] by auto
qed simp

lemma subkey_free_logged:
  "(a, f) \<in> set fs \<Longrightarrow> Free (field_subkey f) \<in> set (field_trace fs)"
  by (induction fs rule: field_trace.induct) auto

text \<open>The code's logs on well-formed chains read no node after its free.\<close>

lemma field_trace_order:
  assumes "wf_fields h p fs"
  shows "no_load_after_free (field_trace fs)"
  using assms
proof (induction fs arbitrary: p)
  case (Cons x fs)
  obtain a f where x: "x = (a, f)" by (cases x)
  note hd = wf_fields_head [OF Cons.prems [unfolded x]]
  have tl: "wf_fields h (field_next f) fs"
    using Cons.prems unfolding x by (rule wf_fields_tail)
  then have chain: "field_chain h (field_next f) fs" by (simp add: wf_fields_def)
  have "set (frees (field_trace fs)) \<subseteq> insert NULL (set (fields_nodes fs @ fields_texts fs))"
    using set_frees_deallocs [of "field_trace fs"] deallocs_field_chain [OF chain] by simp
  with hd(2,4) have "a \<notin> set (frees (field_trace fs))" by auto
  with Cons.IH [OF tl] hd(5,6,7) show ?case
    unfolding x by (simp add: no_load_after_free_append)
qed simp

lemma section_trace_order:
  assumes "wf_index h p ss"
  shows "no_load_after_free (section_trace ss)"
  using assms
proof (induction ss arbitrary: p)
  case (Cons x ss)
  obtain a s fs where x: "x = (a, s, fs)" by (cases x)
  note hd = wf_index_head [OF Cons.prems [unfolded x]]
  have tl: "wf_index h (section_next s) ss"
    using Cons.prems unfolding x by (rule wf_index_tail)
  have wfs: "wf_fields h (section_fields s) fs"
    using Cons.prems unfolding x by (rule wf_index_fields)
  from tl have chain: "section_chain h (section_next s) ss" by (simp add: wf_index_def)
  from wfs have fchain: "field_chain h (section_fields s) fs" by (simp add: wf_fields_def)
  let ?n = "section_name s"
  have n0: "NULL \<notin> set (fields_nodes fs)" by (rule field_chain_nodes [OF fchain])
  have nF: "?n \<notin> set (fields_nodes fs)" using hd(7) n0 by auto
  have "set (frees (section_trace ss)) \<subseteq> insert NULL (set (owned ss))"
    using set_frees_deallocs [of "section_trace ss"]
      mset_eq_setD [OF deallocs_section_chain [OF chain]] by simp
  then have 1: "set (frees (section_trace ss)) \<inter> insert a (set (fields_nodes fs)) = {}"
    using hd(2,5,8) n0 by auto
  have 2: "no_load_after_free (field_trace fs)" by (rule field_trace_order [OF wfs])
  show ?case
    unfolding x using Cons.IH [OF tl] 1 2 nF hd(6)
    by (simp add: no_load_after_free_append loads_field_trace)
qed simp

text \<open>Sorting the deallocations of a release by the kind of cell they free.\<close>

lemma filter_all: "list_all P xs \<Longrightarrow> filter P xs = xs"
  by (induction xs) auto

lemma filter_none: "list_all (\<lambda>x. \<not> P x) xs \<Longrightarrow> filter P xs = []"
  by (induction xs) auto

lemma wf_index_section_frees:
  assumes "wf_index h p ss"
  shows "mset (filter (is_section h) (deallocs (section_trace ss))) = mset (section_nodes ss)"
    and "mset (filter (is_field h) (deallocs (section_trace ss))) = mset (section_field_nodes ss)"
proof -
  from assms have chain: "section_chain h p ss" and tx: "list_all (is_text h) (section_texts ss)"
    by (simp_all add: wf_index_def)
  note k = section_chain_kinds [OF chain]
  have m: "mset (deallocs (section_trace ss)) = mset (owned ss)"
    by (rule deallocs_section_chain [OF chain])
  have s1: "filter (is_section h) (section_nodes ss) = section_nodes ss"
    using k by (simp add: filter_all)
  have s2: "filter (is_section h) (section_field_nodes ss) = []"
    using k by (intro filter_none) (auto simp: list_all_iff dest: kinds_exclusive)
  have s3: "filter (is_section h) (section_texts ss) = []"
    using tx by (intro filter_none) (auto simp: list_all_iff dest: kinds_exclusive)
  have f1: "filter (is_field h) (section_nodes ss) = []"
    using k by (intro filter_none) (auto simp: list_all_iff dest: kinds_exclusive)
  have f2: "filter (is_field h) (section_field_nodes ss) = section_field_nodes ss"
    using k by (simp add: filter_all)
  have f3: "filter (is_field h) (section_texts ss) = []"
    using tx by (intro filter_none) (auto simp: list_all_iff dest: kinds_exclusive)
  have "mset (filter (is_section h) (deallocs (section_trace ss))) =
        mset (filter (is_section h) (owned ss))"
    using m by (simp only: mset_filter)
  also have "\<dots> = mset (section_nodes ss)"
    by (simp add: owned_def s1 s2 s3)
  finally show
    "mset (filter (is_section h) (deallocs (section_trace ss))) = mset (section_nodes ss)" .
  have "mset (filter (is_field h) (deallocs (section_trace ss))) =
        mset (filter (is_field h) (owned ss))"
    using m by (simp only: mset_filter)
  also have "\<dots> = mset (section_field_nodes ss)"
    by (simp add: owned_def f1 f2 f3)
  finally show
    "mset (filter (is_field h) (deallocs (section_trace ss))) = mset (section_field_nodes ss)" .
qed

section \<open>Symbolic execution\<close>

subsection \<open>The recursion of the code\<close>

text \<open>
  On a well-formed Field chain, with room for one activation more than the chain has
  nodes, \<^verbatim>\<open>free_field\<close> returns; it has logged \<open>field_trace\<close> and deallocated what the log
  says.
\<close>

lemma free_field_effect:
  assumes "wf_fields (heap st) p fs" "length fs < depth"
  shows "free_field depth p st = Inr (effect (field_trace fs) st)"
  using assms
proof (induction fs arbitrary: p depth st)
  case Nil
  then obtain d where "depth = Suc d" by (cases depth) auto
  with Nil show ?case by (simp add: wf_fields_def)
next
  case (Cons x fs)
  obtain a f where x: "x = (a, f)" by (cases x)
  from Cons.prems obtain d where d: "depth = Suc d" "length fs < d" by (cases depth) auto
  note hd = wf_fields_head [OF Cons.prems(1) [unfolded x]]
  have tl: "wf_fields (heap st) (field_next f) fs"
    using Cons.prems(1) unfolding x by (rule wf_fields_tail)
  then have chain: "field_chain (heap st) (field_next f) fs" by (simp add: wf_fields_def)
  let ?k = "field_key f" and ?s = "field_subkey f" and ?v = "field_value f"
  let ?S = "set (fields_nodes fs @ fields_texts fs)"
  let ?e1 = "Load a Next # field_trace fs"
  let ?e2 = "?e1 @ [Load a Key]"
  let ?e3 = "?e2 @ [Free ?k]"
  let ?e4 = "?e3 @ [Load a Subkey]"
  let ?e5 = "?e4 @ [Free ?s]"
  let ?e6 = "?e5 @ [Load a Value]"
  let ?e7 = "?e6 @ [Free ?v]"
  have d1: "set (deallocs ?e1) = ?S" using deallocs_field_chain [OF chain] by simp
  have d2: "set (deallocs ?e2) = ?S"
    by (simp only: set_deallocs_snoc_load d1)
  have d3: "set (deallocs ?e3) = ?S \<union> ({?k} - {NULL})"
    by (simp only: set_deallocs_snoc_free d2)
  have d4: "set (deallocs ?e4) = ?S \<union> ({?k} - {NULL})"
    by (simp only: set_deallocs_snoc_load d3)
  have d5: "set (deallocs ?e5) = ?S \<union> ({?k} - {NULL}) \<union> ({?s} - {NULL})"
    by (simp only: set_deallocs_snoc_free d4)
  have d6: "set (deallocs ?e6) = ?S \<union> ({?k} - {NULL}) \<union> ({?s} - {NULL})"
    by (simp only: set_deallocs_snoc_load d5)
  have d7: "set (deallocs ?e7) = ?S \<union> ({?k} - {NULL}) \<union> ({?s} - {NULL}) \<union> ({?v} - {NULL})"
    by (simp only: set_deallocs_snoc_free d6)
  have l1: "load_field a Next st = Inr (field_next f, effect [Load a Next] st)"
    using load_field_effect [of st a f Next "field_next f"] hd(3) by simp
  have "wf_fields (heap (effect [Load a Next] st)) (field_next f) fs" using tl by simp
  from Cons.IH [OF this d(2)]
  have r1: "free_field d (field_next f) (effect [Load a Next] st) = Inr (effect ?e1 st)"
    by simp
  have l2: "load_field a Key (effect ?e1 st) = Inr (?k, effect ?e2 st)"
    by (rule load_field_after) (unfold d1, use hd(3,4) in simp_all)
  have f3: "free_ptr ?k (effect ?e2 st) = Inr (effect ?e3 st)"
    by (rule free_ptr_after) (unfold d2, use hd(8) in blast)
  have l4: "load_field a Subkey (effect ?e3 st) = Inr (?s, effect ?e4 st)"
    by (rule load_field_after) (unfold d3, use hd(3,4,5) in simp_all)
  have f5: "free_ptr ?s (effect ?e4 st) = Inr (effect ?e5 st)"
    by (rule free_ptr_after) (unfold d4, use hd(9) in blast)
  have l6: "load_field a Value (effect ?e5 st) = Inr (?v, effect ?e6 st)"
    by (rule load_field_after) (unfold d5, use hd(3,4,5,6) in simp_all)
  have f7: "free_ptr ?v (effect ?e6 st) = Inr (effect ?e7 st)"
    by (rule free_ptr_after) (unfold d6, use hd(10) in blast)
  have f8: "free_ptr a (effect ?e7 st) = Inr (effect (?e7 @ [Free a]) st)"
    by (rule free_ptr_after) (unfold d7, use hd(3,4,5,6,7) in simp)
  show ?case
    unfolding d(1) hd(1) x
    using hd(2) l1 r1 l2 f3 l4 f5 l6 f7 f8 by simp
qed

text \<open>
  Inside \<^verbatim>\<open>free_section\<close>: when the rest of the chain and the name have been released,
  the Section's Field chain is still well-formed, and \<^verbatim>\<open>free_field\<close> releases it.
\<close>

lemma free_section_fields:
  assumes "wf_index (heap st) p ((a, s, fs) # ss)" "length fs < depth"
  shows "free_field depth (section_fields s)
           (effect (Load a Next # section_trace ss @
              [Load a Name, Free (section_name s), Load a Fields]) st) =
         Inr (effect (Load a Next # section_trace ss @
              [Load a Name, Free (section_name s), Load a Fields] @ field_trace fs) st)"
proof -
  note hd = wf_index_head [OF assms(1)]
  have wfs: "wf_fields (heap st) (section_fields s) fs"
    by (rule wf_index_fields [OF assms(1)])
  have "section_chain (heap st) (section_next s) ss"
    using wf_index_tail [OF assms(1)] by (simp add: wf_index_def)
  from mset_eq_setD [OF deallocs_section_chain [OF this]]
  have d: "set (deallocs (section_trace ss)) = set (owned ss)" .
  let ?e = "Load a Next # section_trace ss @ [Load a Name, Free (section_name s), Load a Fields]"
  have "set (deallocs ?e) \<subseteq> set (owned ss) \<union> ({section_name s} - {NULL})"
    using d by auto
  then have "set (deallocs ?e) \<inter> set (fields_nodes fs @ fields_texts fs) = {}"
    using hd(7,8) by blast
  then have "wf_fields (heap (effect ?e st)) (section_fields s) fs"
    unfolding heap_effect by (rule wf_fields_without [OF wfs])
  from free_field_effect [OF this assms(2)] show ?thesis by simp
qed

text \<open>
  On a well-formed Section chain, with room for \<open>stack_depth\<close> activations, \<^verbatim>\<open>free_section\<close>
  returns; it has logged \<open>section_trace\<close> and deallocated what the log says.
\<close>

lemma free_section_effect:
  assumes "wf_index (heap st) p ss" "stack_depth ss \<le> depth"
  shows "free_section depth p st = Inr (effect (section_trace ss) st)"
  using assms
proof (induction ss arbitrary: p depth st)
  case Nil
  then obtain d where "depth = Suc d" by (cases depth) auto
  with Nil show ?case by (simp add: wf_index_def)
next
  case (Cons x ss)
  obtain a s fs where x: "x = (a, s, fs)" by (cases x)
  from Cons.prems x obtain d where d: "depth = Suc d" "stack_depth ss \<le> d" "length fs < d"
    by (cases depth) auto
  note hd = wf_index_head [OF Cons.prems(1) [unfolded x]]
  have tl: "wf_index (heap st) (section_next s) ss"
    using Cons.prems(1) unfolding x by (rule wf_index_tail)
  have wfs: "wf_fields (heap st) (section_fields s) fs"
    using Cons.prems(1) unfolding x by (rule wf_index_fields)
  from tl have chain: "section_chain (heap st) (section_next s) ss" by (simp add: wf_index_def)
  from wfs have fchain: "field_chain (heap st) (section_fields s) fs"
    by (simp add: wf_fields_def)
  let ?n = "section_name s"
  let ?F = "set (fields_nodes fs @ fields_texts fs)"
  let ?S = "set (owned ss)"
  let ?e1 = "Load a Next # section_trace ss"
  let ?e2 = "?e1 @ [Load a Name]"
  let ?e3 = "?e2 @ [Free ?n]"
  let ?e4 = "?e3 @ [Load a Fields]"
  let ?e5 = "?e4 @ field_trace fs"
  have d1: "set (deallocs ?e1) = ?S"
    using mset_eq_setD [OF deallocs_section_chain [OF chain]] by simp
  have d2: "set (deallocs ?e2) = ?S"
    by (simp only: set_deallocs_snoc_load d1)
  have d3: "set (deallocs ?e3) = ?S \<union> ({?n} - {NULL})"
    by (simp only: set_deallocs_snoc_free d2)
  have d4: "set (deallocs ?e4) = ?S \<union> ({?n} - {NULL})"
    by (simp only: set_deallocs_snoc_load d3)
  have d5: "set (deallocs ?e5) = ?S \<union> ({?n} - {NULL}) \<union> ?F"
    unfolding set_deallocs_append [of ?e4 "field_trace fs"] d4 deallocs_field_chain [OF fchain]
    by (rule refl)
  have l1: "load_section a Next st = Inr (section_next s, effect [Load a Next] st)"
    using load_section_effect [of st a s Next "section_next s"] hd(3) by simp
  have "wf_index (heap (effect [Load a Next] st)) (section_next s) ss" using tl by simp
  from Cons.IH [OF this d(2)]
  have r1: "free_section d (section_next s) (effect [Load a Next] st) = Inr (effect ?e1 st)"
    by simp
  have l2: "load_section a Name (effect ?e1 st) = Inr (?n, effect ?e2 st)"
    by (rule load_section_after) (unfold d1, use hd(3,5) in simp_all)
  have f3: "free_ptr ?n (effect ?e2 st) = Inr (effect ?e3 st)"
    by (rule free_ptr_after) (unfold d2, use hd(7) in blast)
  have l4: "load_section a Fields (effect ?e3 st) = Inr (section_fields s, effect ?e4 st)"
    by (rule load_section_after) (unfold d3, use hd(3,5,6) in simp_all)
  have r5: "free_field d (section_fields s) (effect ?e4 st) = Inr (effect ?e5 st)"
    using free_section_fields [OF Cons.prems(1) [unfolded x] d(3)] by simp
  have f6: "free_ptr a (effect ?e5 st) = Inr (effect (?e5 @ [Free a]) st)"
    by (rule free_ptr_after) (unfold d5, use hd(3,4,5,6) in simp)
  show ?case
    unfolding d(1) hd(1) x
    using hd(2) l1 r1 l2 f3 l4 r5 f6 by simp
qed

lemma parse_context_free_effect:
  assumes "wf_context st context ss" "stack_depth ss \<le> depth"
  shows "parse_context_free depth context st =
           Inr (effect (Load context Parsed_index # section_trace ss) st)"
proof -
  from assms(1) obtain c where c: "heap st context = Some (ContextCell c)"
    and wf: "wf_index (heap st) (parsed_index c) ss" by (rule wf_contextD)
  have "wf_index (heap (effect [Load context Parsed_index] st)) (parsed_index c) ss"
    using wf by simp
  from free_section_effect [OF this assms(2)] load_context_effect [OF c]
  show ?thesis by (simp add: parse_context_free_def)
qed

text \<open>With room for no more activations than the chain has Sections, the stack runs out.\<close>

lemma free_section_exhausted:
  assumes "section_chain (heap st) p ss" "depth \<le> length ss"
  shows "free_section depth p st = Inl StackExhausted"
  using assms
proof (induction ss arbitrary: depth p st)
  case Nil
  then show ?case by simp
next
  case (Cons x ss)
  obtain a s fs where x: "x = (a, s, fs)" by (cases x)
  show ?case
  proof (cases depth)
    case 0
    then show ?thesis by simp
  next
    case (Suc d)
    from Cons.prems have a: "p = a" "a \<noteq> NULL" "heap st a = Some (SectionCell s)"
      and chain: "section_chain (heap st) (section_next s) ss"
      unfolding x by auto
    have l1: "load_section a Next st = Inr (section_next s, effect [Load a Next] st)"
      using load_section_effect [of st a s Next "section_next s"] a by simp
    have "section_chain (heap (effect [Load a Next] st)) (section_next s) ss"
      using chain by simp
    moreover have "d \<le> length ss" using Cons.prems(2) Suc by simp
    ultimately have "free_section d (section_next s) (effect [Load a Next] st) = Inl StackExhausted"
      by (rule Cons.IH)
    with l1 a(2) show ?thesis unfolding Suc a(1) by simp
  qed
qed

lemma parse_context_free_exhausted:
  assumes "wf_context st context ss" "depth \<le> length ss"
  shows "parse_context_free depth context st = Inl StackExhausted"
proof -
  from assms(1) obtain c where c: "heap st context = Some (ContextCell c)"
    and wf: "wf_index (heap st) (parsed_index c) ss" by (rule wf_contextD)
  have "section_chain (heap (effect [Load context Parsed_index] st)) (parsed_index c) ss"
    using wf by (simp add: wf_index_def)
  from free_section_exhausted [OF this assms(2)] load_context_effect [OF c]
  show ?thesis by (simp add: parse_context_free_def)
qed

subsection \<open>The iterative walk\<close>

lemma release_fields_iter_effect:
  assumes "wf_fields (heap st) p fs" "length fs < steps"
  shows "release_fields_iter steps p st = Inr (effect (field_walk fs) st)"
  using assms
proof (induction fs arbitrary: p steps st)
  case Nil
  then obtain k where "steps = Suc k" by (cases steps) auto
  with Nil show ?case by (simp add: wf_fields_def)
next
  case (Cons x fs)
  obtain a f where x: "x = (a, f)" by (cases x)
  from Cons.prems obtain k where k: "steps = Suc k" "length fs < k" by (cases steps) auto
  note hd = wf_fields_head [OF Cons.prems(1) [unfolded x]]
  have tl: "wf_fields (heap st) (field_next f) fs"
    using Cons.prems(1) unfolding x by (rule wf_fields_tail)
  let ?k = "field_key f" and ?s = "field_subkey f" and ?v = "field_value f"
  let ?S = "set (fields_nodes fs @ fields_texts fs)"
  let ?e1 = "[Load a Next]"
  let ?e2 = "?e1 @ [Load a Key]"
  let ?e3 = "?e2 @ [Free ?k]"
  let ?e4 = "?e3 @ [Load a Subkey]"
  let ?e5 = "?e4 @ [Free ?s]"
  let ?e6 = "?e5 @ [Load a Value]"
  let ?e7 = "?e6 @ [Free ?v]"
  let ?e8 = "?e7 @ [Free a]"
  have d1: "set (deallocs ?e1) = {}" by simp
  have d2: "set (deallocs ?e2) = {}"
    by (simp only: set_deallocs_snoc_load d1)
  have d3: "set (deallocs ?e3) = {} \<union> ({?k} - {NULL})"
    by (simp only: set_deallocs_snoc_free d2)
  have d4: "set (deallocs ?e4) = {} \<union> ({?k} - {NULL})"
    by (simp only: set_deallocs_snoc_load d3)
  have d5: "set (deallocs ?e5) = {} \<union> ({?k} - {NULL}) \<union> ({?s} - {NULL})"
    by (simp only: set_deallocs_snoc_free d4)
  have d6: "set (deallocs ?e6) = {} \<union> ({?k} - {NULL}) \<union> ({?s} - {NULL})"
    by (simp only: set_deallocs_snoc_load d5)
  have d7: "set (deallocs ?e7) = {} \<union> ({?k} - {NULL}) \<union> ({?s} - {NULL}) \<union> ({?v} - {NULL})"
    by (simp only: set_deallocs_snoc_free d6)
  have d8: "set (deallocs ?e8) =
      {} \<union> ({?k} - {NULL}) \<union> ({?s} - {NULL}) \<union> ({?v} - {NULL}) \<union> ({a} - {NULL})"
    unfolding set_deallocs_snoc_free [of ?e7 a] d7 by (rule refl)
  have l1: "load_field a Next st = Inr (field_next f, effect ?e1 st)"
    using load_field_effect [of st a f Next "field_next f"] hd(3) by simp
  have l2: "load_field a Key (effect ?e1 st) = Inr (?k, effect ?e2 st)"
    by (rule load_field_after) (use hd(3) d1 in simp_all)
  have f3: "free_ptr ?k (effect ?e2 st) = Inr (effect ?e3 st)"
    by (rule free_ptr_after) (unfold d2, use hd(8) in blast)
  have l4: "load_field a Subkey (effect ?e3 st) = Inr (?s, effect ?e4 st)"
    by (rule load_field_after) (use hd(3,5) d3 in simp_all)
  have f5: "free_ptr ?s (effect ?e4 st) = Inr (effect ?e5 st)"
    by (rule free_ptr_after) (unfold d4, use hd(9) in blast)
  have l6: "load_field a Value (effect ?e5 st) = Inr (?v, effect ?e6 st)"
    by (rule load_field_after) (use hd(3,5,6) d5 in simp_all)
  have f7: "free_ptr ?v (effect ?e6 st) = Inr (effect ?e7 st)"
    by (rule free_ptr_after) (unfold d6, use hd(10) in blast)
  have f8: "free_ptr a (effect ?e7 st) = Inr (effect ?e8 st)"
    by (rule free_ptr_after) (use hd(3,5,6,7) d7 in simp)
  have "set (deallocs ?e8) \<inter> ?S = {}"
    unfolding d8 using hd(4,8,9,10) by blast
  then have "wf_fields (heap (effect ?e8 st)) (field_next f) fs"
    unfolding heap_effect by (rule wf_fields_without [OF tl])
  from Cons.IH [OF this k(2)]
  have r: "release_fields_iter k (field_next f) (effect ?e8 st) =
      Inr (effect (?e8 @ field_walk fs) st)" by simp
  show ?case
    unfolding k(1) hd(1) x
    using hd(2) l1 l2 f3 l4 f5 l6 f7 f8 r by simp
qed

lemma release_sections_iter_effect:
  assumes "wf_index (heap st) p ss" "length ss < steps"
    and "\<forall>x\<in>set ss. length (snd (snd x)) < inner"
  shows "release_sections_iter inner steps p st = Inr (effect (section_walk ss) st)"
  using assms
proof (induction ss arbitrary: p steps st)
  case Nil
  then obtain k where "steps = Suc k" by (cases steps) auto
  with Nil show ?case by (simp add: wf_index_def)
next
  case (Cons x ss)
  obtain a s fs where x: "x = (a, s, fs)" by (cases x)
  from Cons.prems obtain k where k: "steps = Suc k" "length ss < k" by (cases steps) auto
  from Cons.prems(3) have inner: "length fs < inner" "\<forall>x\<in>set ss. length (snd (snd x)) < inner"
    unfolding x by simp_all
  note hd = wf_index_head [OF Cons.prems(1) [unfolded x]]
  have tl: "wf_index (heap st) (section_next s) ss"
    using Cons.prems(1) unfolding x by (rule wf_index_tail)
  have wfs: "wf_fields (heap st) (section_fields s) fs"
    using Cons.prems(1) unfolding x by (rule wf_index_fields)
  have fchain: "field_chain (heap st) (section_fields s) fs" using wfs by (simp add: wf_fields_def)
  let ?n = "section_name s"
  let ?F = "set (fields_nodes fs @ fields_texts fs)"
  let ?e1 = "[Load a Next]"
  let ?e2 = "?e1 @ [Load a Fields]"
  let ?e3 = "?e2 @ field_walk fs"
  let ?e4 = "?e3 @ [Load a Name]"
  let ?e5 = "?e4 @ [Free ?n]"
  let ?e6 = "?e5 @ [Free a]"
  have dF: "set (deallocs (field_walk fs)) = ?F"
    unfolding deallocs_field_walk using deallocs_field_chain [OF fchain] by simp
  have d1: "set (deallocs ?e1) = {}" by simp
  have d2: "set (deallocs ?e2) = {}"
    by (simp only: set_deallocs_snoc_load d1)
  have d3: "set (deallocs ?e3) = {} \<union> ?F"
    unfolding set_deallocs_append [of ?e2 "field_walk fs"] d2 dF by (rule refl)
  have d4: "set (deallocs ?e4) = {} \<union> ?F"
    unfolding set_deallocs_snoc_load [of ?e3 a Name] d3 by (rule refl)
  have d5: "set (deallocs ?e5) = {} \<union> ?F \<union> ({?n} - {NULL})"
    unfolding set_deallocs_snoc_free [of ?e4 ?n] d4 by (rule refl)
  have d6: "set (deallocs ?e6) = {} \<union> ?F \<union> ({?n} - {NULL}) \<union> ({a} - {NULL})"
    unfolding set_deallocs_snoc_free [of ?e5 a] d5 by (rule refl)
  have l1: "load_section a Next st = Inr (section_next s, effect ?e1 st)"
    using load_section_effect [of st a s Next "section_next s"] hd(3) by simp
  have l2: "load_section a Fields (effect ?e1 st) = Inr (section_fields s, effect ?e2 st)"
    by (rule load_section_after) (use hd(3) d1 in simp_all)
  have "wf_fields (heap (effect ?e2 st)) (section_fields s) fs" using wfs by simp
  from release_fields_iter_effect [OF this inner(1)]
  have r3: "release_fields_iter inner (section_fields s) (effect ?e2 st) = Inr (effect ?e3 st)"
    by simp
  have l4: "load_section a Name (effect ?e3 st) = Inr (?n, effect ?e4 st)"
    by (rule load_section_after) (unfold d3, use hd(3,4) in simp_all)
  have f5: "free_ptr ?n (effect ?e4 st) = Inr (effect ?e5 st)"
    by (rule free_ptr_after) (unfold d4, use hd(7) in blast)
  have f6: "free_ptr a (effect ?e5 st) = Inr (effect ?e6 st)"
    by (rule free_ptr_after) (unfold d5, use hd(3,4,6) in simp)
  have "set (deallocs ?e6) \<inter> set (owned ss) = {}"
    unfolding d6 using hd(5,7,8) by blast
  then have "wf_index (heap (effect ?e6 st)) (section_next s) ss"
    unfolding heap_effect by (rule wf_index_without [OF tl])
  from Cons.IH [OF this k(2) inner(2)]
  have r: "release_sections_iter inner k (section_next s) (effect ?e6 st) =
      Inr (effect (?e6 @ section_walk ss) st)" by simp
  show ?case
    unfolding k(1) hd(1) x
    using hd(2) l1 l2 r3 l4 f5 f6 r by simp
qed

subsection \<open>The release writes to no cell\<close>

text \<open>Whatever the heap, a cell is freed or left as it is.\<close>

lemma free_ptr_shrinks:
  "free_ptr p st = Inr st' \<Longrightarrow> heap st' a = None \<or> heap st' a = heap st a"
  by (auto simp: free_ptr_def emit_def split: if_splits option.splits)

lemma load_field_heap: "load_field p m st = Inr (v, st') \<Longrightarrow> heap st' = heap st"
  by (auto simp: load_field_def emit_def split: option.splits cell.splits)

lemma load_section_heap: "load_section p m st = Inr (v, st') \<Longrightarrow> heap st' = heap st"
  by (auto simp: load_section_def emit_def split: option.splits cell.splits)

lemma load_context_heap: "load_context p st = Inr (v, st') \<Longrightarrow> heap st' = heap st"
  by (auto simp: load_context_def emit_def split: option.splits cell.splits)

lemma free_field_shrinks:
  "free_field depth p st = Inr st' \<Longrightarrow> heap st' a = None \<or> heap st' a = heap st a"
proof (induction depth arbitrary: p st st')
  case 0
  then show ?case by simp
next
  case (Suc depth)
  show ?case
  proof (cases "p = NULL")
    case True
    with Suc.prems show ?thesis by simp
  next
    case False
    with Suc.prems obtain n s1 s2 k s3 s4 sk s5 s6 v s7 s8 where
      "load_field p Next st = Inr (n, s1)" "free_field depth n s1 = Inr s2"
      "load_field p Key s2 = Inr (k, s3)" "free_ptr k s3 = Inr s4"
      "load_field p Subkey s4 = Inr (sk, s5)" "free_ptr sk s5 = Inr s6"
      "load_field p Value s6 = Inr (v, s7)" "free_ptr v s7 = Inr s8"
      "free_ptr p s8 = Inr st'"
      by (auto simp: and_then_Inr)
    then show ?thesis
      using Suc.IH [of n s1 s2] free_ptr_shrinks [of k s3 s4 a] free_ptr_shrinks [of sk s5 s6 a]
        free_ptr_shrinks [of v s7 s8 a] free_ptr_shrinks [of p s8 st' a]
        load_field_heap [of p Next st n s1] load_field_heap [of p Key s2 k s3]
        load_field_heap [of p Subkey s4 sk s5] load_field_heap [of p Value s6 v s7]
      by metis
  qed
qed

lemma free_section_shrinks:
  "free_section depth p st = Inr st' \<Longrightarrow> heap st' a = None \<or> heap st' a = heap st a"
proof (induction depth arbitrary: p st st')
  case 0
  then show ?case by simp
next
  case (Suc depth)
  show ?case
  proof (cases "p = NULL")
    case True
    with Suc.prems show ?thesis by simp
  next
    case False
    with Suc.prems obtain n s1 s2 k s3 s4 f s5 s6 where
      "load_section p Next st = Inr (n, s1)" "free_section depth n s1 = Inr s2"
      "load_section p Name s2 = Inr (k, s3)" "free_ptr k s3 = Inr s4"
      "load_section p Fields s4 = Inr (f, s5)" "free_field depth f s5 = Inr s6"
      "free_ptr p s6 = Inr st'"
      by (auto simp: and_then_Inr)
    then show ?thesis
      using Suc.IH [of n s1 s2] free_ptr_shrinks [of k s3 s4 a] free_field_shrinks [of depth f s5 s6 a]
        free_ptr_shrinks [of p s6 st' a]
        load_section_heap [of p Next st n s1] load_section_heap [of p Name s2 k s3]
        load_section_heap [of p Fields s4 f s5]
      by metis
  qed
qed

lemma parse_context_free_shrinks:
  "parse_context_free depth context st = Inr st' \<Longrightarrow>
     heap st' a = None \<or> heap st' a = heap st a"
  using free_section_shrinks load_context_heap
  by (fastforce simp: parse_context_free_def and_then_Inr)

subsection \<open>The concrete indexes are well-formed\<close>

lemma demo_wf_fields: "wf_fields demo_heap 3 demo_fields"
  by (simp add: wf_fields_def demo_fields_def demo_heap_def demo_field1_def demo_field2_def
      fields_nodes_def fields_texts_def present_def is_text_def)

lemma demo_wf_index: "wf_index demo_heap 1 demo_shape"
  by (simp add: wf_index_def demo_shape_def demo_fields_def demo_heap_def demo_section_def
      demo_field1_def demo_field2_def owned_def fields_nodes_def fields_texts_def present_def
      is_text_def)

lemma demo_wf_context: "wf_context demo_state 10 demo_shape"
  using demo_wf_index by (simp add: wf_context_def demo_state_def) (simp add: demo_heap_def)

lemma long_chain:
  "i \<le> n \<Longrightarrow>
     section_chain (long_heap n) (if i < n then Suc i else NULL)
       (map (\<lambda>i. (i, long_section n i, [])) [Suc i..<Suc n])"
proof (induction "n - i" arbitrary: i)
  case 0
  then show ?case by simp
next
  case (Suc k)
  then have i: "i < n" by simp
  then have u: "[Suc i..<Suc n] = Suc i # [Suc (Suc i)..<Suc n]"
    by (simp add: upt_conv_Cons)
  have "k = n - Suc i" "Suc i \<le> n" using Suc.hyps(2) i by simp_all
  from Suc.hyps(1) [OF this]
  have "section_chain (long_heap n) (section_next (long_section n (Suc i)))
       (map (\<lambda>i. (i, long_section n i, [])) [Suc (Suc i)..<Suc n])"
    by (simp add: long_section_def)
  moreover have "long_heap n (Suc i) = Some (SectionCell (long_section n (Suc i)))"
    using i by (simp add: long_heap_def)
  moreover have "section_fields (long_section n (Suc i)) = NULL"
    by (simp add: long_section_def)
  ultimately show ?case using i unfolding u by simp
qed

lemma long_nodes:
  "section_nodes (map (\<lambda>i. (i, long_section n i, [])) xs) = xs"
  "section_field_nodes (map (\<lambda>i. (i, long_section n i, [])) xs) = []"
  by (induction xs) (simp_all add: fields_nodes_def)

lemma long_texts:
  "NULL \<notin> set xs \<Longrightarrow>
     section_texts (map (\<lambda>i. (i, long_section n i, [])) xs) = map (\<lambda>i. n + i) xs"
  by (induction xs) (auto simp: fields_texts_def long_section_def present_simps)

lemma long_wf_index:
  "wf_index (long_heap n) (if 0 < n then 1 else NULL) (long_shape n)"
proof -
  have c: "section_chain (long_heap n) (if 0 < n then 1 else NULL) (long_shape n)"
    unfolding long_shape_def One_nat_def by (rule long_chain) simp
  have t: "section_texts (long_shape n) = map (\<lambda>i. n + i) [1..<Suc n]"
    unfolding long_shape_def by (rule long_texts) simp
  have o: "owned (long_shape n) = [1..<Suc n] @ map (\<lambda>i. n + i) [1..<Suc n]"
    unfolding owned_def t by (simp add: long_shape_def long_nodes del: upt_Suc)
  have d: "distinct (owned (long_shape n))"
    unfolding o by (auto simp: distinct_map inj_on_def)
  have x: "list_all (is_text (long_heap n)) (section_texts (long_shape n))"
    unfolding t by (auto simp: list_all_iff is_text_def long_heap_def)
  from c d x show ?thesis by (simp add: wf_index_def)
qed

lemma long_wf_context: "wf_context (long_state n) (2 * n + 1) (long_shape n)"
proof -
  have "long_heap n (2 * n + 1) =
      Some (ContextCell \<lparr>parsed_index = (if n = 0 then NULL else 1)\<rparr>)"
    by (simp add: long_heap_def)
  moreover have "(if n = 0 then NULL else 1) = (if 0 < n then 1 else NULL)" by simp
  ultimately show ?thesis
    using long_wf_index [of n] by (simp add: wf_context_def long_state_def)
qed

lemma long_shape_simps:
  "length (long_shape n) = n" "list_all (\<lambda>x. snd (snd x) = []) (long_shape n)"
  by (simp_all add: long_shape_def list_all_iff)

section \<open>The claims\<close>

subsection \<open>C1: every node is freed exactly once\<close>

text \<open>
  C1. For every well-formed context owning a chain of \<open>N\<close> Sections, each Section owning a
  chain of \<open>M\<close> Fields, releasing the context returns without a fault, and the
  deallocations it logs hold exactly \<open>N\<close> Section nodes and \<open>N * M\<close> Field nodes: no node
  twice (the lists are distinct) and no node omitted (they are the nodes of the chain, none
  of which is live afterwards). The stack must have room for \<open>N + M + 1\<close> nested
  activations.
\<close>

theorem release_frees_each_node_once:
  assumes "wf_context st context ss" and "length ss = N"
    and "\<forall>x\<in>set ss. length (snd (snd x)) = M" and "N + M < depth"
  shows "\<exists>st' es. parse_context_free depth context st = Inr st' \<and> trace st' = trace st @ es \<and>
      length (filter (is_section (heap st)) (deallocs es)) = N \<and>
      distinct (filter (is_section (heap st)) (deallocs es)) \<and>
      set (filter (is_section (heap st)) (deallocs es)) = set (section_nodes ss) \<and>
      length (filter (is_field (heap st)) (deallocs es)) = N * M \<and>
      distinct (filter (is_field (heap st)) (deallocs es)) \<and>
      set (filter (is_field (heap st)) (deallocs es)) = set (section_field_nodes ss) \<and>
      (\<forall>a\<in>set (section_nodes ss @ section_field_nodes ss). heap st' a = None)"
proof -
  from assms(1) obtain c where c: "heap st context = Some (ContextCell c)"
    and wf: "wf_index (heap st) (parsed_index c) ss" by (rule wf_contextD)
  let ?es = "Load context Parsed_index # section_trace ss"
  have "stack_depth ss \<le> length ss + M + 1"
    using assms(3) by (intro stack_depth_bound) simp
  with assms(2,4) have "stack_depth ss \<le> depth" by simp
  from parse_context_free_effect [OF assms(1) this]
  have run: "parse_context_free depth context st = Inr (effect ?es st)" .
  have d: "deallocs ?es = deallocs (section_trace ss)" by simp
  note ms = wf_index_section_frees [OF wf]
  from wf have dist: "distinct (section_nodes ss)" "distinct (section_field_nodes ss)"
    using distinct_owned [of ss] by (simp_all add: wf_index_def)
  have chain: "section_chain (heap st) (parsed_index c) ss" using wf by (simp add: wf_index_def)
  have gone: "\<forall>a\<in>set (section_nodes ss @ section_field_nodes ss). heap (effect ?es st) a = None"
  proof
    fix a assume "a \<in> set (section_nodes ss @ section_field_nodes ss)"
    then have "a \<in> set (owned ss)" by (auto simp: owned_def)
    then have "a \<in> set (deallocs (section_trace ss))"
      using mset_eq_setD [OF deallocs_section_chain [OF chain]] by simp
    then show "heap (effect ?es st) a = None" by (simp add: without_apply)
  qed
  have "length (filter (is_section (heap st)) (deallocs ?es)) = N"
    unfolding d using mset_eq_length [OF ms(1)] assms(2) by (simp add: length_section_nodes)
  moreover have "distinct (filter (is_section (heap st)) (deallocs ?es))"
    unfolding d using mset_eq_imp_distinct_iff [OF ms(1)] dist(1) by simp
  moreover have "set (filter (is_section (heap st)) (deallocs ?es)) = set (section_nodes ss)"
    unfolding d using mset_eq_setD [OF ms(1)] .
  moreover have "length (filter (is_field (heap st)) (deallocs ?es)) = N * M"
    unfolding d using mset_eq_length [OF ms(2)] assms(2) length_section_field_nodes [OF assms(3)]
    by simp
  moreover have "distinct (filter (is_field (heap st)) (deallocs ?es))"
    unfolding d using mset_eq_imp_distinct_iff [OF ms(2)] dist(2) by simp
  moreover have "set (filter (is_field (heap st)) (deallocs ?es)) = set (section_field_nodes ss)"
    unfolding d using mset_eq_setD [OF ms(2)] .
  ultimately show ?thesis using run gone
    by (intro exI [of _ "effect ?es st"] exI [of _ ?es]) (simp only: trace_effect simp_thms)
qed

theorem release_frees_each_node_once_witness:
  "wf_context demo_state 10 demo_shape \<and> length demo_shape = 1 \<and>
   map (\<lambda>x. length (snd (snd x))) demo_shape = [2] \<and> (1::nat) + 2 < 4 \<and>
   (\<exists>st' es. parse_context_free 4 10 demo_state = Inr st' \<and>
      trace st' = trace demo_state @ es \<and>
      length (filter (is_section (heap demo_state)) (deallocs es)) = 1 \<and>
      distinct (filter (is_section (heap demo_state)) (deallocs es)) \<and>
      set (filter (is_section (heap demo_state)) (deallocs es)) = {1} \<and>
      length (filter (is_field (heap demo_state)) (deallocs es)) = 1 * 2 \<and>
      distinct (filter (is_field (heap demo_state)) (deallocs es)) \<and>
      set (filter (is_field (heap demo_state)) (deallocs es)) = {3, 7} \<and>
      (\<forall>a\<in>{1, 3, 7}. heap st' a = None))"
proof -
  have h: "length demo_shape = 1" "\<forall>x\<in>set demo_shape. length (snd (snd x)) = 2" "(1::nat) + 2 < 4"
    by (simp_all add: demo_shape_def demo_fields_def)
  have n: "set (section_nodes demo_shape) = {1}" "set (section_field_nodes demo_shape) = {3, 7}"
    "set (section_nodes demo_shape @ section_field_nodes demo_shape) = {1, 3, 7}"
    by (simp_all add: demo_shape_def demo_fields_def fields_nodes_def)
  have m: "map (\<lambda>x. length (snd (snd x))) demo_shape = [2]"
    by (simp add: demo_shape_def demo_fields_def)
  show ?thesis
    using release_frees_each_node_once [OF demo_wf_context h] demo_wf_context h(1,3) m
    unfolding n by simp
qed

subsection \<open>C2: the order of release within a Section\<close>

text \<open>
  C2 as stated (rest of the chain, then the Field chain, then the name, then the node) does
  not hold of the code: \<^verbatim>\<open>free_section\<close> frees the name before it releases the Field
  chain. On the index of the scenario the \<^verbatim>\<open>free\<close> calls come in the order
  name (2), Fields (8, 9, 11, 7, 4, null, 5, 3), node (1), where the stated order would put
  the name (2) after the Fields.
\<close>

theorem section_release_order_counterexample:
  "wf_index (heap demo_state) 1 demo_shape \<and>
   freed_by (free_section 4 1 demo_state) = Some [2, 8, 9, 11, 7, 4, NULL, 5, 3, 1] \<and>
   spec_section_order demo_shape = [8, 9, 11, 7, 4, NULL, 5, 3, 2, 1] \<and>
   freed_by (free_section 4 1 demo_state) \<noteq> Some (spec_section_order demo_shape)"
proof -
  have wf: "wf_index (heap demo_state) 1 demo_shape"
    using demo_wf_index by (simp add: demo_state_def)
  have "stack_depth demo_shape \<le> 4" by (simp add: demo_shape_def demo_fields_def)
  from free_section_effect [OF wf this]
  have "freed_by (free_section 4 1 demo_state) = Some (frees (section_trace demo_shape))"
    by (simp add: freed_by_def demo_state_def)
  moreover have "frees (section_trace demo_shape) = [2, 8, 9, 11, 7, 4, NULL, 5, 3, 1]"
    by (simp add: demo_shape_def demo_fields_def demo_section_def demo_field1_def demo_field2_def)
  moreover have "spec_section_order demo_shape = [8, 9, 11, 7, 4, NULL, 5, 3, 2, 1]"
    by (simp add: demo_shape_def demo_fields_def demo_section_def demo_field1_def demo_field2_def)
  ultimately show ?thesis using wf by simp
qed

text \<open>
  C2, amended. For every non-empty well-formed Section chain, releasing it processes the
  first Section in this order: first the rest of the chain (the node's \<^verbatim>\<open>next\<close>) is
  released, then the Section's name text, then the Section's Field chain, then the Section
  node itself. The rest of the chain is released by the recursive call that follows the
  read of the link; the Field chain is released by \<^verbatim>\<open>free_field\<close> in the state in which the
  name has already been freed; and the log of the whole run is the link read, the log of
  the rest of the chain, the name read and freed, the Field pointer read, the log of the
  Field chain, and the node freed.
\<close>

theorem section_release_order:
  assumes "wf_index (heap st) p ((a, s, fs) # ss)"
    and "stack_depth ss \<le> depth" and "length fs < depth"
  shows "free_section depth (section_next s) (effect [Load a Next] st) =
           Inr (effect (Load a Next # section_trace ss) st) \<and>
         free_field depth (section_fields s)
           (effect (Load a Next # section_trace ss @
              [Load a Name, Free (section_name s), Load a Fields]) st) =
           Inr (effect (Load a Next # section_trace ss @
              [Load a Name, Free (section_name s), Load a Fields] @ field_trace fs) st) \<and>
         free_section (Suc depth) p st =
           Inr (effect (Load a Next # section_trace ss @
              [Load a Name, Free (section_name s), Load a Fields] @ field_trace fs @
              [Free a]) st)"
proof -
  have "wf_index (heap (effect [Load a Next] st)) (section_next s) ss"
    using wf_index_tail [OF assms(1)] by simp
  from free_section_effect [OF this assms(2)]
  have 1: "free_section depth (section_next s) (effect [Load a Next] st) =
           Inr (effect (Load a Next # section_trace ss) st)" by simp
  note 2 = free_section_fields [OF assms(1,3)]
  have "stack_depth ((a, s, fs) # ss) \<le> Suc depth" using assms(2,3) by simp
  from free_section_effect [OF assms(1) this]
  have 3: "free_section (Suc depth) p st = Inr (effect (section_trace ((a, s, fs) # ss)) st)" .
  show ?thesis using 1 2 3 by simp
qed

theorem section_release_order_witness:
  "wf_index (heap demo_state) 1 ((1, demo_section, demo_fields) # []) \<and>
   stack_depth [] \<le> 3 \<and> length demo_fields < 3 \<and>
   free_section 3 NULL (effect [Load 1 Next] demo_state) = Inr (effect [Load 1 Next] demo_state) \<and>
   free_field 3 3 (effect [Load 1 Next, Load 1 Name, Free 2, Load 1 Fields] demo_state) =
     Inr (effect ([Load 1 Next, Load 1 Name, Free 2, Load 1 Fields] @ field_trace demo_fields)
            demo_state) \<and>
   free_section 4 1 demo_state =
     Inr (effect ([Load 1 Next, Load 1 Name, Free 2, Load 1 Fields] @ field_trace demo_fields @
                  [Free 1]) demo_state)"
proof -
  have wf: "wf_index (heap demo_state) 1 ((1, demo_section, demo_fields) # [])"
    using demo_wf_index by (simp add: demo_state_def demo_shape_def)
  have d: "stack_depth [] \<le> 3" "length demo_fields < 3" by (simp_all add: demo_fields_def)
  have n: "section_next demo_section = NULL" "section_name demo_section = 2"
    "section_fields demo_section = 3" by (simp_all add: demo_section_def)
  have s: "Suc 3 = 4" by simp
  show ?thesis
    using section_release_order [OF wf d] wf d by (simp add: n s)
qed

subsection \<open>C3: the order of release within a Field chain\<close>

text \<open>
  C3. For every non-empty well-formed Field chain, releasing it processes the first Field in
  this order: first the node's \<^verbatim>\<open>next\<close> chain is released, then its key, subkey and
  value texts, then the Field node itself; and on the terminator the release of a Field
  chain is a no-op that returns the state it was given.
\<close>

theorem field_release_order:
  assumes "wf_fields (heap st) p ((a, f) # fs)" and "length fs < depth"
  shows "free_field depth (field_next f) (effect [Load a Next] st) =
           Inr (effect (Load a Next # field_trace fs) st) \<and>
         free_field (Suc depth) p st =
           Inr (effect (Load a Next # field_trace fs @
                  [Load a Key, Free (field_key f), Load a Subkey, Free (field_subkey f),
                   Load a Value, Free (field_value f), Free a]) st) \<and>
         free_field (Suc depth) NULL st' = Inr st'"
proof -
  have "wf_fields (heap (effect [Load a Next] st)) (field_next f) fs"
    using wf_fields_tail [OF assms(1)] by simp
  from free_field_effect [OF this assms(2)]
  have 1: "free_field depth (field_next f) (effect [Load a Next] st) =
           Inr (effect (Load a Next # field_trace fs) st)" by simp
  have "length ((a, f) # fs) < Suc depth" using assms(2) by simp
  from free_field_effect [OF assms(1) this]
  have 2: "free_field (Suc depth) p st = Inr (effect (field_trace ((a, f) # fs)) st)" .
  show ?thesis using 1 2 by simp
qed

theorem field_release_order_witness:
  "wf_fields (heap demo_state) 3 ((3, demo_field1) # [(7, demo_field2)]) \<and>
   length [(7, demo_field2)] < (2::nat) \<and>
   free_field 2 7 (effect [Load 3 Next] demo_state) =
     Inr (effect [Load 3 Next, Load 7 Next, Load 7 Key, Free 8, Load 7 Subkey, Free 9,
                  Load 7 Value, Free 11, Free 7] demo_state) \<and>
   free_field 3 3 demo_state =
     Inr (effect [Load 3 Next, Load 7 Next, Load 7 Key, Free 8, Load 7 Subkey, Free 9,
                  Load 7 Value, Free 11, Free 7,
                  Load 3 Key, Free 4, Load 3 Subkey, Free NULL, Load 3 Value, Free 5, Free 3]
            demo_state) \<and>
   free_field 3 NULL demo_state = Inr demo_state"
proof -
  have wf: "wf_fields (heap demo_state) 3 ((3, demo_field1) # [(7, demo_field2)])"
    using demo_wf_fields by (simp add: demo_state_def demo_fields_def)
  have d: "length [(7, demo_field2)] < (2::nat)" by simp
  have n: "field_next demo_field1 = 7" "field_key demo_field1 = 4" "field_subkey demo_field1 = NULL"
    "field_value demo_field1 = 5" "field_key demo_field2 = 8" "field_subkey demo_field2 = 9"
    "field_value demo_field2 = 11"
    by (simp_all add: demo_field1_def demo_field2_def)
  have s: "Suc 2 = 3" by simp
  show ?thesis
    using field_release_order [OF wf d, of demo_state] wf d by (simp add: n s)
qed

subsection \<open>C4: descend, then free\<close>

text \<open>
  C4. During the release of any well-formed chain, of Sections or of Fields, the run
  returns without a fault and no member of a node is read after the node has been freed;
  in particular, for every node of the chain the log splits at the node's \<^verbatim>\<open>free\<close>: the
  node's \<^verbatim>\<open>next\<close> link is read before it (the traversal has descended past the node), and
  the node is not read after it.
\<close>

theorem release_descends_before_free:
  "(wf_index (heap st) p ss \<and> stack_depth ss \<le> depth \<longrightarrow>
     (\<exists>st' es. free_section depth p st = Inr st' \<and> trace st' = trace st @ es \<and>
        no_load_after_free es \<and>
        (\<forall>a\<in>set (section_nodes ss @ section_field_nodes ss).
           \<exists>pre post. es = pre @ Free a # post \<and> Load a Next \<in> set pre \<and>
             a \<notin> set (loads post)))) \<and>
   (wf_fields (heap st) q fs \<and> length fs < depth \<longrightarrow>
     (\<exists>st' es. free_field depth q st = Inr st' \<and> trace st' = trace st @ es \<and>
        no_load_after_free es \<and>
        (\<forall>a\<in>set (fields_nodes fs).
           \<exists>pre post. es = pre @ Free a # post \<and> Load a Next \<in> set pre \<and>
             a \<notin> set (loads post))))"
proof (intro conjI impI)
  assume h: "wf_index (heap st) p ss \<and> stack_depth ss \<le> depth"
  then have run: "free_section depth p st = Inr (effect (section_trace ss) st)"
    by (simp add: free_section_effect)
  have ord: "no_load_after_free (section_trace ss)"
    using h section_trace_order by blast
  have "\<forall>a\<in>set (section_nodes ss @ section_field_nodes ss).
      \<exists>pre post. section_trace ss = pre @ Free a # post \<and> Load a Next \<in> set pre \<and>
        a \<notin> set (loads post)"
    using split_free [OF ord] section_trace_events by blast
  with run ord show "\<exists>st' es. free_section depth p st = Inr st' \<and> trace st' = trace st @ es \<and>
        no_load_after_free es \<and>
        (\<forall>a\<in>set (section_nodes ss @ section_field_nodes ss).
           \<exists>pre post. es = pre @ Free a # post \<and> Load a Next \<in> set pre \<and>
             a \<notin> set (loads post))"
    by (intro exI [of _ "effect (section_trace ss) st"] exI [of _ "section_trace ss"])
       (simp only: trace_effect simp_thms)
next
  assume h: "wf_fields (heap st) q fs \<and> length fs < depth"
  then have run: "free_field depth q st = Inr (effect (field_trace fs) st)"
    by (simp add: free_field_effect)
  have ord: "no_load_after_free (field_trace fs)"
    using h field_trace_order by blast
  have "\<forall>a\<in>set (fields_nodes fs).
      \<exists>pre post. field_trace fs = pre @ Free a # post \<and> Load a Next \<in> set pre \<and>
        a \<notin> set (loads post)"
    using split_free [OF ord] field_trace_events by blast
  with run ord show "\<exists>st' es. free_field depth q st = Inr st' \<and> trace st' = trace st @ es \<and>
        no_load_after_free es \<and>
        (\<forall>a\<in>set (fields_nodes fs).
           \<exists>pre post. es = pre @ Free a # post \<and> Load a Next \<in> set pre \<and>
             a \<notin> set (loads post))"
    by (intro exI [of _ "effect (field_trace fs) st"] exI [of _ "field_trace fs"])
       (simp only: trace_effect simp_thms)
qed

theorem release_descends_before_free_witness:
  "wf_index (heap demo_state) 1 demo_shape \<and> stack_depth demo_shape \<le> 4 \<and>
   (\<exists>st' es. free_section 4 1 demo_state = Inr st' \<and> trace st' = trace demo_state @ es \<and>
      no_load_after_free es \<and>
      (\<forall>a\<in>set (section_nodes demo_shape @ section_field_nodes demo_shape).
         \<exists>pre post. es = pre @ Free a # post \<and> Load a Next \<in> set pre \<and>
           a \<notin> set (loads post))) \<and>
   wf_fields (heap demo_state) 3 demo_fields \<and> length demo_fields < 4 \<and>
   (\<exists>st' es. free_field 4 3 demo_state = Inr st' \<and> trace st' = trace demo_state @ es \<and>
      no_load_after_free es \<and>
      (\<forall>a\<in>set (fields_nodes demo_fields).
         \<exists>pre post. es = pre @ Free a # post \<and> Load a Next \<in> set pre \<and>
           a \<notin> set (loads post)))"
proof -
  have h1: "wf_index (heap demo_state) 1 demo_shape"
    using demo_wf_index by (simp add: demo_state_def)
  have h2: "stack_depth demo_shape \<le> 4" by (simp add: demo_shape_def demo_fields_def)
  have h3: "wf_fields (heap demo_state) 3 demo_fields"
    using demo_wf_fields by (simp add: demo_state_def)
  have h4: "length demo_fields < 4" by (simp add: demo_fields_def)
  note t = release_descends_before_free [of demo_state 1 demo_shape 4 3 demo_fields]
  note c1 = conjunct1 [OF t, THEN mp, OF conjI [OF h1 h2]]
  note c2 = conjunct2 [OF t, THEN mp, OF conjI [OF h3 h4]]
  show ?thesis by (intro conjI h1 h2 h3 h4 c1 c2)
qed

subsection \<open>C5: the stack that a long chain needs\<close>

text \<open>
  C5 as stated does not hold of the code: \<^verbatim>\<open>free_section\<close> calls itself on \<^verbatim>\<open>next\<close>
  before it frees anything, so the nesting of its activations grows with the chain. On
  the context with 1000 chained Sections without Fields, a stack with room for 1000 nested
  activations is exhausted, while the same stack suffices for 999 Sections.
\<close>

theorem release_stack_depth_counterexample:
  "wf_context (long_state 1000) 2001 (long_shape 1000) \<and> length (long_shape 1000) = 1000 \<and>
   list_all (\<lambda>x. snd (snd x) = []) (long_shape 1000) \<and>
   parse_context_free 1000 2001 (long_state 1000) = Inl StackExhausted \<and>
   parse_context_free 1000 1999 (long_state 999) =
     Inr (effect (Load 1999 Parsed_index # section_trace (long_shape 999)) (long_state 999))"
proof -
  have w: "wf_context (long_state 1000) 2001 (long_shape 1000)"
    using long_wf_context [of 1000] by simp
  have w': "wf_context (long_state 999) 1999 (long_shape 999)"
    using long_wf_context [of 999] by simp
  have "stack_depth (long_shape 999) \<le> length (long_shape 999) + 0 + 1"
    by (rule stack_depth_bound) (simp add: long_shape_def)
  then have d: "stack_depth (long_shape 999) \<le> 1000" by (simp add: long_shape_simps)
  have e: "(1000::nat) \<le> length (long_shape 1000)" by (simp add: long_shape_simps)
  show ?thesis
    using w parse_context_free_exhausted [OF w e] parse_context_free_effect [OF w' d]
    by (simp add: long_shape_simps)
qed

text \<open>
  C5, amended. Releasing a well-formed context with \<open>N\<close> chained Sections, each with zero
  Fields, completes if and only if the stack has room for more than \<open>N\<close> nested
  activations of the release procedures: with room for \<open>N\<close> or fewer the stack is
  exhausted, with room for \<open>N + 1\<close> the release returns with every node freed. The stack
  that release uses grows in proportion to the length of the Section chain; 1000 Sections
  need room for 1001 activations.
\<close>

theorem release_stack_depth:
  assumes "wf_context st context ss" and "\<forall>x\<in>set ss. snd (snd x) = []"
  shows "(depth \<le> length ss \<longrightarrow> parse_context_free depth context st = Inl StackExhausted) \<and>
         (length ss < depth \<longrightarrow>
            parse_context_free depth context st =
              Inr (effect (Load context Parsed_index # section_trace ss) st))"
proof (intro conjI impI)
  assume "depth \<le> length ss"
  with assms(1) show "parse_context_free depth context st = Inl StackExhausted"
    by (rule parse_context_free_exhausted)
next
  assume d: "length ss < depth"
  have "stack_depth ss \<le> length ss + 0 + 1"
    using assms(2) by (intro stack_depth_bound) simp
  with d have "stack_depth ss \<le> depth" by simp
  with assms(1) show "parse_context_free depth context st =
      Inr (effect (Load context Parsed_index # section_trace ss) st)"
    by (rule parse_context_free_effect)
qed

theorem release_stack_depth_witness:
  "wf_context (long_state 1000) 2001 (long_shape 1000) \<and>
   list_all (\<lambda>x. snd (snd x) = []) (long_shape 1000) \<and> length (long_shape 1000) = 1000 \<and>
   parse_context_free 1000 2001 (long_state 1000) = Inl StackExhausted \<and>
   parse_context_free 1001 2001 (long_state 1000) =
     Inr (effect (Load 2001 Parsed_index # section_trace (long_shape 1000)) (long_state 1000))"
proof -
  have w: "wf_context (long_state 1000) 2001 (long_shape 1000)"
    using long_wf_context [of 1000] by simp
  have z: "\<forall>x\<in>set (long_shape 1000). snd (snd x) = []"
    using long_shape_simps(2) [of 1000] by (simp add: list_all_iff)
  show ?thesis
    using release_stack_depth [OF w z, of 1000] release_stack_depth [OF w z, of 1001] w
    by (simp add: long_shape_simps)
qed

subsection \<open>C6: initialisation\<close>

text \<open>
  C6. For every context, whatever it holds, initialisation returns (it has no failure mode
  on a pointer to a context) and leaves the context in the empty initial state: its Section
  chain is the terminator, so it is a well-formed context owning no Section; nothing is
  allocated (the heap has the same live addresses as before), no other cell changes, and
  neither a read nor a \<^verbatim>\<open>free\<close> is logged.
\<close>

theorem parse_context_init_empty:
  assumes "heap st context = Some (ContextCell c)"
  shows "\<exists>st'. parse_context_init context st = Inr st' \<and>
           heap st' context = Some (ContextCell \<lparr>parsed_index = NULL\<rparr>) \<and>
           wf_context st' context [] \<and>
           dom (heap st') = dom (heap st) \<and>
           (\<forall>a. a \<noteq> context \<longrightarrow> heap st' a = heap st a) \<and>
           trace st' = trace st"
  using assms by (auto simp: parse_context_init_def wf_context_def wf_index_def owned_def)

theorem parse_context_init_empty_witness:
  "heap demo_state 10 = Some (ContextCell \<lparr>parsed_index = 1\<rparr>) \<and>
   (\<exists>st'. parse_context_init 10 demo_state = Inr st' \<and>
      heap st' 10 = Some (ContextCell \<lparr>parsed_index = NULL\<rparr>) \<and>
      wf_context st' 10 [] \<and>
      dom (heap st') = dom (heap demo_state) \<and>
      (\<forall>a. a \<noteq> 10 \<longrightarrow> heap st' a = heap demo_state a) \<and>
      trace st' = trace demo_state)"
proof -
  have h: "heap demo_state 10 = Some (ContextCell \<lparr>parsed_index = 1\<rparr>)"
    by (simp add: demo_state_def demo_heap_def)
  from parse_context_init_empty [OF h] h show ?thesis by (intro conjI)
qed

subsection \<open>C7: releasing an empty context\<close>

text \<open>
  C7. For every context that has been initialised and has had no Section appended, release
  returns at once (room for a single activation is enough), leaves the heap as it is and
  calls \<^verbatim>\<open>free\<close> not once: the only event it logs is the read of \<^verbatim>\<open>parsed_index\<close>.
\<close>

theorem release_after_init_is_noop:
  assumes "heap st context = Some (ContextCell c)" and "0 < depth"
  shows "\<exists>st1 st2. parse_context_init context st = Inr st1 \<and>
           parse_context_free depth context st1 = Inr st2 \<and>
           heap st2 = heap st1 \<and>
           trace st2 = trace st1 @ [Load context Parsed_index] \<and>
           frees (trace st2) = frees (trace st1)"
proof -
  let ?st1 = "st\<lparr>heap := (heap st)(context \<mapsto> ContextCell \<lparr>parsed_index = NULL\<rparr>)\<rparr>"
  have i: "parse_context_init context st = Inr ?st1"
    using assms(1) by (simp add: parse_context_init_def)
  have w: "wf_context ?st1 context []"
    by (simp add: wf_context_def wf_index_def owned_def)
  have "stack_depth [] \<le> depth" using assms(2) by simp
  from parse_context_free_effect [OF w this]
  have f: "parse_context_free depth context ?st1 = Inr (effect [Load context Parsed_index] ?st1)"
    by simp
  show ?thesis
    by (intro exI [of _ ?st1] exI [of _ "effect [Load context Parsed_index] ?st1"] conjI i f)
       simp_all
qed

theorem release_after_init_is_noop_witness:
  "heap demo_state 10 = Some (ContextCell \<lparr>parsed_index = 1\<rparr>) \<and> (0::nat) < 1 \<and>
   (\<exists>st1 st2. parse_context_init 10 demo_state = Inr st1 \<and>
      parse_context_free 1 10 st1 = Inr st2 \<and>
      heap st2 = heap st1 \<and>
      trace st2 = trace st1 @ [Load 10 Parsed_index] \<and>
      frees (trace st2) = frees (trace st1))"
proof -
  have h: "heap demo_state 10 = Some (ContextCell \<lparr>parsed_index = 1\<rparr>)"
    by (simp add: demo_state_def demo_heap_def)
  have d: "(0::nat) < 1" by simp
  from release_after_init_is_noop [OF h d] h d show ?thesis by (intro conjI)
qed

subsection \<open>C8: the recursion and the iterative walk free the same\<close>

text \<open>
  C8. For every well-formed chain, of Sections or of Fields, the recursive teardown of the
  code and the iterative forward walk of the design notes (capture \<^verbatim>\<open>next\<close>, release the
  node's resources and the node, advance) both return without a fault, given room for the
  recursion and enough iterations for the walk; they end in the same heap, and they hand
  the same pointers to \<^verbatim>\<open>free\<close> the same number of times: the same nodes and the same
  owned texts, in a different order.
\<close>

theorem recursive_iterative_equivalent:
  "(wf_index (heap st) p ss \<and> stack_depth ss \<le> depth \<and> length ss < steps \<and>
      (\<forall>x\<in>set ss. length (snd (snd x)) < inner) \<longrightarrow>
     (\<exists>st1 st2. free_section depth p st = Inr st1 \<and>
        release_sections_iter inner steps p st = Inr st2 \<and>
        heap st1 = heap st2 \<and> mset (frees (trace st1)) = mset (frees (trace st2)))) \<and>
   (wf_fields (heap st) q fs \<and> length fs < depth \<and> length fs < steps \<longrightarrow>
     (\<exists>st1 st2. free_field depth q st = Inr st1 \<and>
        release_fields_iter steps q st = Inr st2 \<and>
        heap st1 = heap st2 \<and> mset (frees (trace st1)) = mset (frees (trace st2))))"
proof (intro conjI impI)
  assume h: "wf_index (heap st) p ss \<and> stack_depth ss \<le> depth \<and> length ss < steps \<and>
      (\<forall>x\<in>set ss. length (snd (snd x)) < inner)"
  then have r: "free_section depth p st = Inr (effect (section_trace ss) st)"
    by (simp add: free_section_effect)
  from h have w: "release_sections_iter inner steps p st = Inr (effect (section_walk ss) st)"
    by (intro release_sections_iter_effect) simp_all
  have 1: "heap (effect (section_trace ss) st) = heap (effect (section_walk ss) st)"
    unfolding heap_effect by (rule without_cong) (simp add: deallocs_section_walk)
  have 2: "mset (frees (trace (effect (section_trace ss) st))) =
           mset (frees (trace (effect (section_walk ss) st)))"
    by (simp add: frees_section_walk)
  from r w 1 2 show "\<exists>st1 st2. free_section depth p st = Inr st1 \<and>
        release_sections_iter inner steps p st = Inr st2 \<and>
        heap st1 = heap st2 \<and> mset (frees (trace st1)) = mset (frees (trace st2))"
    by blast
next
  assume h: "wf_fields (heap st) q fs \<and> length fs < depth \<and> length fs < steps"
  then have r: "free_field depth q st = Inr (effect (field_trace fs) st)"
    by (simp add: free_field_effect)
  from h have w: "release_fields_iter steps q st = Inr (effect (field_walk fs) st)"
    by (simp add: release_fields_iter_effect)
  have 1: "heap (effect (field_trace fs) st) = heap (effect (field_walk fs) st)"
    unfolding heap_effect by (rule without_cong) (simp add: deallocs_field_walk)
  have 2: "mset (frees (trace (effect (field_trace fs) st))) =
           mset (frees (trace (effect (field_walk fs) st)))"
    by (simp add: frees_field_walk)
  from r w 1 2 show "\<exists>st1 st2. free_field depth q st = Inr st1 \<and>
        release_fields_iter steps q st = Inr st2 \<and>
        heap st1 = heap st2 \<and> mset (frees (trace st1)) = mset (frees (trace st2))"
    by blast
qed

theorem recursive_iterative_equivalent_witness:
  "wf_index (heap demo_state) 1 demo_shape \<and> stack_depth demo_shape \<le> 4 \<and>
   length demo_shape < 2 \<and> list_all (\<lambda>x. length (snd (snd x)) < 3) demo_shape \<and>
   (\<exists>st1 st2. free_section 4 1 demo_state = Inr st1 \<and>
      release_sections_iter 3 2 1 demo_state = Inr st2 \<and>
      heap st1 = heap st2 \<and> mset (frees (trace st1)) = mset (frees (trace st2))) \<and>
   wf_fields (heap demo_state) 3 demo_fields \<and> length demo_fields < 4 \<and>
   length demo_fields < 3 \<and>
   (\<exists>st1 st2. free_field 4 3 demo_state = Inr st1 \<and>
      release_fields_iter 3 3 demo_state = Inr st2 \<and>
      heap st1 = heap st2 \<and> mset (frees (trace st1)) = mset (frees (trace st2)))"
proof -
  have h1: "wf_index (heap demo_state) 1 demo_shape"
    using demo_wf_index by (simp add: demo_state_def)
  have h2: "stack_depth demo_shape \<le> 4" by (simp add: demo_shape_def demo_fields_def)
  have h3: "length demo_shape < 2" by (simp add: demo_shape_def)
  have h4: "\<forall>x\<in>set demo_shape. length (snd (snd x)) < 3"
    by (simp add: demo_shape_def demo_fields_def)
  then have h4': "list_all (\<lambda>x. length (snd (snd x)) < 3) demo_shape" by (simp add: list_all_iff)
  have h5: "wf_fields (heap demo_state) 3 demo_fields"
    using demo_wf_fields by (simp add: demo_state_def)
  have h6: "length demo_fields < 4" "length demo_fields < 3" by (simp_all add: demo_fields_def)
  note t1 = recursive_iterative_equivalent [of demo_state 1 demo_shape 4 2 3 3 demo_fields]
  note t2 = recursive_iterative_equivalent [of demo_state 1 demo_shape 4 3 3 3 demo_fields]
  note c1 = conjunct1 [OF t1, THEN mp, OF conjI [OF h1 conjI [OF h2 conjI [OF h3 h4]]]]
  note c2 = conjunct2 [OF t2, THEN mp, OF conjI [OF h5 conjI [OF h6(1) h6(2)]]]
  show ?thesis by (intro conjI h1 h2 h3 h4' h5 h6 c1 c2)
qed

subsection \<open>C9: release does not reset the context\<close>

text \<open>
  C9. The release entry point writes nothing to the context: whenever it returns, the context
  cell is as it was, \<^verbatim>\<open>parsed_index\<close> included (or, when the heap is so ill-formed that the
  chain owns the context's storage, the cell has been freed; it is never reset). Releasing
  a well-formed context returns and leaves the context cell as it was. When that context
  owned at least one Section, \<^verbatim>\<open>parsed_index\<close> is therefore still the old pointer, not the
  terminator, and it dangles: the Section it pointed to is no longer live, and the context
  is not in the empty state.
\<close>

theorem release_keeps_parsed_index:
  "(parse_context_free depth context st = Inr st1 \<longrightarrow>
      heap st1 context = None \<or> heap st1 context = heap st context) \<and>
   (wf_context st context ss \<and> stack_depth ss \<le> depth \<longrightarrow>
      (\<exists>st'. parse_context_free depth context st = Inr st' \<and>
         heap st' context = heap st context \<and>
         (ss \<noteq> [] \<longrightarrow>
            (\<exists>c. heap st' context = Some (ContextCell c) \<and> parsed_index c \<noteq> NULL \<and>
               heap st' (parsed_index c) = None \<and> \<not> wf_context st' context []))))"
proof (intro conjI impI)
  assume "parse_context_free depth context st = Inr st1"
  then show "heap st1 context = None \<or> heap st1 context = heap st context"
    by (rule parse_context_free_shrinks)
next
  assume h: "wf_context st context ss \<and> stack_depth ss \<le> depth"
  then obtain c where c: "heap st context = Some (ContextCell c)"
    and wf: "wf_index (heap st) (parsed_index c) ss" by (auto elim: wf_contextD)
  let ?es = "Load context Parsed_index # section_trace ss"
  have run: "parse_context_free depth context st = Inr (effect ?es st)"
    using h by (simp add: parse_context_free_effect)
  have chain: "section_chain (heap st) (parsed_index c) ss" using wf by (simp add: wf_index_def)
  have d: "set (deallocs ?es) = set (owned ss)"
    using mset_eq_setD [OF deallocs_section_chain [OF chain]] by simp
  have "context \<notin> set (owned ss)"
  proof
    assume "context \<in> set (owned ss)"
    from wf_index_kinds [OF wf this] c show False
      by (simp add: is_section_def is_field_def is_text_def)
  qed
  then have keep: "heap (effect ?es st) context = heap st context"
    unfolding heap_effect without_apply d by simp
  have dangling: "\<exists>c. heap (effect ?es st) context = Some (ContextCell c) \<and>
      parsed_index c \<noteq> NULL \<and> heap (effect ?es st) (parsed_index c) = None \<and>
      \<not> wf_context (effect ?es st) context []" if "ss \<noteq> []"
  proof -
    from that obtain a s fs ss' where ss: "ss = (a, s, fs) # ss'"
      by (cases ss) auto
    from chain have a: "parsed_index c = a" "a \<noteq> NULL" unfolding ss by auto
    have "a \<in> set (owned ss)" unfolding ss by (simp add: owned_def)
    then have gone: "heap (effect ?es st) a = None"
      unfolding heap_effect without_apply d by simp
    have "\<not> wf_context (effect ?es st) context []"
      unfolding wf_context_def keep c using a by (simp add: wf_index_def)
    with keep c a gone show ?thesis by auto
  qed
  from run keep dangling show "\<exists>st'. parse_context_free depth context st = Inr st' \<and>
         heap st' context = heap st context \<and>
         (ss \<noteq> [] \<longrightarrow>
            (\<exists>c. heap st' context = Some (ContextCell c) \<and> parsed_index c \<noteq> NULL \<and>
               heap st' (parsed_index c) = None \<and> \<not> wf_context st' context []))"
    by blast
qed

theorem release_keeps_parsed_index_witness:
  "parse_context_free 4 10 demo_state =
     Inr (effect (Load 10 Parsed_index # section_trace demo_shape) demo_state) \<and>
   (heap (effect (Load 10 Parsed_index # section_trace demo_shape) demo_state) 10 = None \<or>
    heap (effect (Load 10 Parsed_index # section_trace demo_shape) demo_state) 10 =
      heap demo_state 10) \<and>
   wf_context demo_state 10 demo_shape \<and> stack_depth demo_shape \<le> 4 \<and>
   (\<exists>st'. parse_context_free 4 10 demo_state = Inr st' \<and>
      heap st' 10 = heap demo_state 10 \<and>
      (demo_shape \<noteq> [] \<longrightarrow>
         (\<exists>c. heap st' 10 = Some (ContextCell c) \<and> parsed_index c \<noteq> NULL \<and>
            heap st' (parsed_index c) = None \<and> \<not> wf_context st' 10 [])))"
proof -
  have d: "stack_depth demo_shape \<le> 4" by (simp add: demo_shape_def demo_fields_def)
  have r: "parse_context_free 4 10 demo_state =
     Inr (effect (Load 10 Parsed_index # section_trace demo_shape) demo_state)"
    by (rule parse_context_free_effect [OF demo_wf_context d])
  note t = release_keeps_parsed_index [of 4 10 demo_state
      "effect (Load 10 Parsed_index # section_trace demo_shape) demo_state" demo_shape]
  note c1 = conjunct1 [OF t, THEN mp, OF r]
  note c2 = conjunct2 [OF t, THEN mp, OF conjI [OF demo_wf_context d]]
  show ?thesis by (intro conjI r c1 demo_wf_context d c2)
qed

subsection \<open>C10: an absent subkey\<close>

text \<open>
  C10. Releasing a well-formed Field chain in which a Field has no subkey (the null pointer)
  is safe: the unconditional \<^verbatim>\<open>free\<close> of the absent subkey returns and leaves the heap
  unchanged, the release of the chain returns without a fault with that call in its log,
  and what it deallocates is exactly the Field nodes and the texts that are present, the
  null pointer not among them.
\<close>

theorem free_field_absent_subkey:
  assumes "wf_fields (heap st) p fs" and "length fs < depth"
    and "(a, f) \<in> set fs" and "field_subkey f = NULL"
  shows "free_ptr (field_subkey f) st1 = Inr (emit (Free NULL) st1) \<and>
         heap (emit (Free NULL) st1) = heap st1 \<and>
         (\<exists>st' es. free_field depth p st = Inr st' \<and> trace st' = trace st @ es \<and>
            Free NULL \<in> set es \<and>
            heap st' = without (heap st) (fields_nodes fs @ fields_texts fs) \<and>
            NULL \<notin> set (fields_nodes fs @ fields_texts fs))"
proof -
  have 1: "free_ptr (field_subkey f) st1 = Inr (emit (Free NULL) st1)"
    using assms(4) by (simp add: free_ptr_def)
  have 2: "heap (emit (Free NULL) st1) = heap st1" by (simp add: emit_def)
  have chain: "field_chain (heap st) p fs" using assms(1) by (simp add: wf_fields_def)
  have run: "free_field depth p st = Inr (effect (field_trace fs) st)"
    by (rule free_field_effect [OF assms(1,2)])
  have log: "Free NULL \<in> set (field_trace fs)"
    using subkey_free_logged [OF assms(3)] assms(4) by simp
  have h: "heap (effect (field_trace fs) st) = without (heap st) (fields_nodes fs @ fields_texts fs)"
    unfolding heap_effect using deallocs_field_chain [OF chain] by (intro without_cong) simp
  have n: "NULL \<notin> set (fields_nodes fs @ fields_texts fs)"
    using field_chain_nodes [OF chain] NULL_notin_fields_texts [of fs] by simp
  from run log h n have "\<exists>st' es. free_field depth p st = Inr st' \<and> trace st' = trace st @ es \<and>
            Free NULL \<in> set es \<and>
            heap st' = without (heap st) (fields_nodes fs @ fields_texts fs) \<and>
            NULL \<notin> set (fields_nodes fs @ fields_texts fs)"
    by (intro exI [of _ "effect (field_trace fs) st"] exI [of _ "field_trace fs"])
       (simp only: trace_effect simp_thms)
  with 1 2 show ?thesis by (intro conjI)
qed

theorem free_field_absent_subkey_witness:
  "wf_fields (heap demo_state) 3 demo_fields \<and> length demo_fields < 3 \<and>
   (3, demo_field1) \<in> set demo_fields \<and> field_subkey demo_field1 = NULL \<and>
   free_ptr (field_subkey demo_field1) demo_state = Inr (emit (Free NULL) demo_state) \<and>
   heap (emit (Free NULL) demo_state) = heap demo_state \<and>
   (\<exists>st' es. free_field 3 3 demo_state = Inr st' \<and> trace st' = trace demo_state @ es \<and>
      Free NULL \<in> set es \<and>
      heap st' = without (heap demo_state) (fields_nodes demo_fields @ fields_texts demo_fields) \<and>
      NULL \<notin> set (fields_nodes demo_fields @ fields_texts demo_fields))"
proof -
  have h1: "wf_fields (heap demo_state) 3 demo_fields"
    using demo_wf_fields by (simp add: demo_state_def)
  have h2: "length demo_fields < 3" by (simp add: demo_fields_def)
  have h3: "(3, demo_field1) \<in> set demo_fields" by (simp add: demo_fields_def)
  have h4: "field_subkey demo_field1 = NULL" by (simp add: demo_field1_def)
  from free_field_absent_subkey [OF h1 h2 h3 h4, of demo_state] h1 h2 h3 h4
  show ?thesis by (intro conjI) (elim conjE, assumption)+
qed

end
